theory Spec2Isabelle
  imports Main "HOL-Library.Multiset" "HOL-Library.AList"
begin

section \<open>Python and Django primitives used by the views\<close>

text \<open>
  The views of \<^verbatim>\<open>pretix/control/views/item.py\<close> that maintain the order of items,
  categories and questions are embedded as functions on an explicit event state.
  Exceptions of the source are values of type \<open>exn\<close>; a view returns either an exception
  or a response, together with the state it leaves behind.
\<close>

datatype exn =
  Http404 string | PermissionDenied | ValueError | TypeError | AttributeError
| RecursionError | RequestDataTooBig | OperationalError | OverflowError | DoesNotExist

datatype response =
  HttpResponse | HttpResponseBadRequest string | HttpResponseNotAllowed | Redirect string

subsection \<open>Strings\<close>

text \<open>
  A Python string is a sequence of Unicode characters. The views tell characters apart
  by equality, by \<^verbatim>\<open>str.isdigit()\<close> and by \<^verbatim>\<open>int()\<close>, so a character is given by its
  numeric class and its number within the class:

  \<^item> \<open>Decimal n\<close> is a decimal digit (general category Nd). Unicode assigns the decimal
    digits in runs of ten, one run per script; \<open>Decimal n\<close> is the digit of value
    \<open>n mod 10\<close> of run \<open>n div 10\<close>, the runs being counted in the order of their code
    points. Run 0 is ASCII: \<open>Decimal 0\<close> to \<open>Decimal 9\<close> are the characters \<^verbatim>\<open>0\<close> to \<^verbatim>\<open>9\<close>.
    Run 1 is ARABIC-INDIC (U+0660 to U+0669).

  \<^item> \<open>OtherDigit n\<close> is a character with the digit property that is no decimal digit,
    \<open>n\<close> being its code point, such as SUPERSCRIPT TWO (U+00B2).

  \<^item> \<open>NonDigit n\<close> is any other character, \<open>n\<close> being its code point.

  \<^verbatim>\<open>str.isdigit()\<close> holds for a non-empty string of characters of the first two kinds.
  \<^verbatim>\<open>int(s)\<close>, for a string that passes \<^verbatim>\<open>isdigit\<close>, is the decimal value of \<open>s\<close> (leading
  zeros allowed, digits of every script) when all its characters are decimal digits; it
  raises \<^verbatim>\<open>ValueError\<close> (\<open>None\<close>) when one of them is not, and when \<open>s\<close> has more digits
  than the interpreter's limit on the conversion between \<^verbatim>\<open>int\<close> and \<^verbatim>\<open>str\<close>
  (\<^verbatim>\<open>sys.get_int_max_str_digits()\<close>; \<open>None\<close> for an interpreter without the limit).
  \<^verbatim>\<open>str(n)\<close> writes a primary key in ASCII decimal digits; the views apply it to the
  keys of rows that an id query returned, whose digits are within the limit.
\<close>

datatype pychar = Decimal nat | OtherDigit nat | NonDigit nat

type_synonym pystr = "pychar list"

fun is_digit :: "pychar \<Rightarrow> bool" where
  "is_digit (Decimal n) = True"
| "is_digit (OtherDigit n) = True"
| "is_digit (NonDigit n) = False"

fun is_decimal :: "pychar \<Rightarrow> bool" where
  "is_decimal (Decimal n) = True"
| "is_decimal (OtherDigit n) = False"
| "is_decimal (NonDigit n) = False"

fun digit_val :: "pychar \<Rightarrow> nat" where
  "digit_val (Decimal n) = n mod 10"
| "digit_val (OtherDigit n) = 0"
| "digit_val (NonDigit n) = 0"

definition isdigit :: "pystr \<Rightarrow> bool" where
  "isdigit s = (s \<noteq> [] \<and> list_all is_digit s)"

definition decimal_value :: "pystr \<Rightarrow> nat" where
  "decimal_value s = foldl (\<lambda>n c. 10 * n + digit_val c) 0 s"

text \<open>A bound of the installation that may be absent.\<close>

definition within :: "nat option \<Rightarrow> nat \<Rightarrow> bool" where
  "within bound n = (case bound of None \<Rightarrow> True | Some m \<Rightarrow> n \<le> m)"

definition py_int :: "nat option \<Rightarrow> pystr \<Rightarrow> nat option" where
  "py_int max_str_digits s =
     (if s \<noteq> [] \<and> list_all is_decimal s \<and> within max_str_digits (length s)
      then Some (decimal_value s) else None)"

function py_str :: "nat \<Rightarrow> pystr" where
  "py_str n = (if n < 10 then [Decimal n] else py_str (n div 10) @ [Decimal (n mod 10)])"
  by pat_completeness auto
termination
  by (relation "measure id") auto

declare py_str.simps [simp del]

text \<open>
  The string literals of the source are ASCII. A character of a literal is given by its
  code, the codes 48 to 57 being the digits \<^verbatim>\<open>0\<close> to \<^verbatim>\<open>9\<close>.
\<close>

definition ascii_char :: "char \<Rightarrow> pychar" where
  "ascii_char c =
     (if 48 \<le> (of_char c :: nat) \<and> (of_char c :: nat) \<le> 57 then Decimal (of_char c - 48)
      else NonDigit (of_char c))"

definition ascii :: "string \<Rightarrow> pystr" where
  "ascii s = map ascii_char s"

subsection \<open>Lists, strings and dictionaries\<close>

text \<open>
  \<^verbatim>\<open>list.index(x)\<close>: the first index holding \<open>x\<close>; \<open>None\<close> stands for the
  \<^verbatim>\<open>ValueError\<close> Python raises when \<open>x\<close> is not in the list.
\<close>

fun index_of :: "'a list \<Rightarrow> 'a \<Rightarrow> nat option" where
  "index_of [] x = None"
| "index_of (y # ys) x = (if y = x then Some 0 else map_option Suc (index_of ys x))"

text \<open>
  \<^verbatim>\<open>str.index(x)\<close>: the first index at which \<open>x\<close> occurs as a substring; \<open>None\<close> stands
  for the \<^verbatim>\<open>ValueError\<close> raised when it does not occur. \<^verbatim>\<open>x in s\<close> on strings holds when
  \<open>x\<close> occurs as a substring.
\<close>

fun str_index :: "'a list \<Rightarrow> 'a list \<Rightarrow> nat option" where
  "str_index [] x = (if x = [] then Some 0 else None)"
| "str_index (c # cs) x =
     (if take (length x) (c # cs) = x then Some 0 else map_option Suc (str_index cs x))"

text \<open>\<^verbatim>\<open>dict.get(key, default)\<close> on a dictionary kept as an association list.\<close>

definition dict_get :: "('k \<times> 'v) list \<Rightarrow> 'k \<Rightarrow> 'v \<Rightarrow> 'v" where
  "dict_get d k dflt = (case map_of d k of None \<Rightarrow> dflt | Some v \<Rightarrow> v)"

subsection \<open>JSON\<close>

text \<open>
  The value \<^verbatim>\<open>json.loads\<close> returns. The views inspect strings, arrays and objects; of a
  number only the kind matters: \<open>JNumber\<close> is a number of the JSON grammar, \<open>JNonFinite\<close>
  is one of the constants \<^verbatim>\<open>NaN\<close>, \<^verbatim>\<open>Infinity\<close> and \<^verbatim>\<open>-Infinity\<close>, which are not JSON but
  which \<^verbatim>\<open>json.loads\<close> accepts. An object is the list of its members in the order of the
  text; Python keeps the last value of a repeated name.
\<close>

datatype json =
  JNull | JBool bool | JNumber | JNonFinite | JString pystr
| JArray "json list" | JObject "(pystr \<times> json) list"


definition dict_lookup :: "(pystr \<times> json) list \<Rightarrow> pystr \<Rightarrow> json option" where
  "dict_lookup kvs k = map_of (rev kvs) k"

definition dict_keys :: "(pystr \<times> json) list \<Rightarrow> pystr list" where
  "dict_keys kvs = rev (remdups (rev (map fst kvs)))"

section \<open>Data model\<close>

text \<open>
  A row of an ordered table has a primary key and a position. Categories and questions
  are used by these views through these two attributes only; an item also has the
  (nullable) foreign key to its category.
\<close>

record orderable =
  pk :: nat
  position :: int

record item = orderable +
  category :: "nat option"

datatype target = ItemObj nat | CategoryObj nat | QuestionObj nat | EventObj

text \<open>
  Values that occur in the \<^verbatim>\<open>data\<close> dictionary of \<^verbatim>\<open>log_action\<close>: an integer,
  \<^verbatim>\<open>None\<close>, an \<^verbatim>\<open>Item\<close> instance, or the dictionary of system question positions.
\<close>

datatype pyval = PyInt int | PyNone | PyItem item | PyDict "(pystr \<times> int) list"

datatype log_entry = LogEntry target string nat "(string \<times> pyval) list"

text \<open>
  A persisted write: \<^verbatim>\<open>obj.save(update_fields=...)\<close> (\<open>None\<close> for a plain
  \<^verbatim>\<open>save()\<close>), or the assignment of an event setting.
\<close>

datatype db_write = SaveRow target "string list option" | SetSetting string

record event_settings =
  attendee_names_asked :: bool
  attendee_names_required :: bool
  attendee_emails_asked :: bool
  attendee_emails_required :: bool
  attendee_company_asked :: bool
  attendee_company_required :: bool
  attendee_addresses_asked :: bool
  attendee_addresses_required :: bool
  system_question_order :: "(pystr \<times> int) list"

text \<open>
  The state of one event (\<^verbatim>\<open>request.event\<close>): its three ordered tables in the order
  in which the database returns their rows, its settings, the audit log and the
  sequence of writes issued so far. The last three fields describe the installation
  and are never written: the interpreter's limit on the digits of an \<^verbatim>\<open>int\<close> conversion,
  the largest integer the database adapter binds as a query parameter
  (\<^verbatim>\<open>2^63 - 1\<close> for SQLite) and the largest number of ids that one id query takes as
  parameters (from SQLite's limit on SQL variables); each is \<open>None\<close> where the
  installation has no such bound.
\<close>

record event_state =
  items :: "item list"
  categories :: "orderable list"
  questions :: "orderable list"
  settings :: event_settings
  log_entries :: "log_entry list"
  writes :: "db_write list"
  int_max_str_digits :: "nat option"
  db_max_integer :: "nat option"
  db_max_parameters :: "nat option"

text \<open>
  The bytes of the request body, by what \<^verbatim>\<open>json.loads(request.body.decode('utf-8'))\<close>
  makes of them:

  \<^item> \<open>TooBig\<close>: a body above Django's upload limit; reading \<^verbatim>\<open>request.body\<close> raises
    \<^verbatim>\<open>RequestDataTooBig\<close>.

  \<^item> \<open>NotUtf8\<close>: bytes that are not UTF-8; \<^verbatim>\<open>decode\<close> raises \<^verbatim>\<open>UnicodeDecodeError\<close>, a
    \<^verbatim>\<open>ValueError\<close>.

  \<^item> \<open>NotJson\<close>: text that the parser rejects with \<^verbatim>\<open>JSONDecodeError\<close>.

  \<^item> \<open>DigitLimit\<close>: JSON text with an integer literal of more digits than the
    interpreter's limit; the parser raises \<^verbatim>\<open>ValueError\<close>.

  \<^item> \<open>TooDeep\<close>: text nested deeper than the interpreter's recursion limit; the parser
    raises \<^verbatim>\<open>RecursionError\<close>.

  \<^item> \<open>Json j\<close>: text that the parser accepts, with the value \<open>j\<close> it returns.

  The flag of \<open>TooBig\<close> and \<open>TooDeep\<close> tells whether the bytes are JSON text.
\<close>

datatype request_body = TooBig bool | NotUtf8 | NotJson | DigitLimit | TooDeep bool | Json json

record request =
  http_method :: string
  user :: nat
  can_change_items :: bool
  body :: request_body

type_synonym 'r view = "event_state \<Rightarrow> (exn + 'r) \<times> event_state"

subsection \<open>Decorators\<close>

text \<open>
  \<^verbatim>\<open>transaction.atomic\<close>: when the wrapped view raises, every write made inside it is
  rolled back; when it returns a response, the writes are committed.
\<close>

definition atomic :: "'r view \<Rightarrow> 'r view" where
  "atomic f st = (case f st of (Inl e, st') \<Rightarrow> (Inl e, st) | (Inr r, st') \<Rightarrow> (Inr r, st'))"

text \<open>
  Modelled from the spec: \<^verbatim>\<open>event_permission_required\<close> of
  \<^verbatim>\<open>pretix.control.permissions\<close>, the permission gate: without the capability the view
  is not run, nothing is written and the outcome is an authorization failure.
\<close>

definition event_permission_required :: "request \<Rightarrow> 'r view \<Rightarrow> 'r view" where
  "event_permission_required rq f st =
     (if can_change_items rq then f st else (Inl PermissionDenied, st))"

text \<open>Django's \<^verbatim>\<open>require_http_methods(["POST"])\<close>.\<close>

definition require_http_methods :: "string list \<Rightarrow> request \<Rightarrow> response view \<Rightarrow> response view" where
  "require_http_methods ms rq f st =
     (if http_method rq \<in> set ms then f st else (Inr HttpResponseNotAllowed, st))"

subsection \<open>Queries and saves\<close>

text \<open>
  \<^verbatim>\<open>list(queryset.filter(id__in=vals))\<close>. Django converts every value with \<^verbatim>\<open>int\<close> when the
  filter is built, so a value that \<^verbatim>\<open>int\<close> rejects raises \<^verbatim>\<open>ValueError\<close>. The query is
  then sent to the database with one parameter for each of the distinct integers: more
  parameters than the database takes raise \<^verbatim>\<open>OperationalError\<close> when the statement is
  prepared, and an integer above the largest one the adapter binds raises
  \<^verbatim>\<open>OverflowError\<close>. Otherwise the rows whose primary key is one of the integers are
  returned, each row once.
\<close>

definition id_query_error :: "event_state \<Rightarrow> pystr list \<Rightarrow> exn option" where
  "id_query_error st vals =
     (if \<not> list_all (\<lambda>v. py_int (int_max_str_digits st) v \<noteq> None) vals then Some ValueError
      else if \<not> within (db_max_parameters st) (length (remdups (map decimal_value vals)))
        then Some OperationalError
      else if \<not> list_all (\<lambda>v. within (db_max_integer st) (decimal_value v)) vals
        then Some OverflowError
      else None)"

definition filter_id_in ::
  "event_state \<Rightarrow> ('a orderable_scheme) list \<Rightarrow> pystr list \<Rightarrow> exn + ('a orderable_scheme) list" where
  "filter_id_in st tab vals =
     (case id_query_error st vals of
        Some e \<Rightarrow> Inl e
      | None \<Rightarrow> Inr (filter (\<lambda>r. pk r \<in> set (map decimal_value vals)) tab))"

text \<open>
  \<^verbatim>\<open>queryset.get(id=k)\<close> returns the row or raises \<^verbatim>\<open>DoesNotExist\<close> (\<open>None\<close>).
\<close>

definition get_by_id :: "('a orderable_scheme) list \<Rightarrow> nat \<Rightarrow> ('a orderable_scheme) option" where
  "get_by_id tab k = find (\<lambda>r. pk r = k) tab"

text \<open>
  \<^verbatim>\<open>obj.save()\<close> writes every column of the in-memory object to its row;
  \<^verbatim>\<open>obj.save(update_fields=['position'])\<close> writes the position only, and
  \<^verbatim>\<open>update_fields=['position', 'category_id']\<close> the position and the category.
\<close>

definition save_all :: "'a orderable_scheme \<Rightarrow> ('a orderable_scheme) list \<Rightarrow> ('a orderable_scheme) list" where
  "save_all obj tab = map (\<lambda>r. if pk r = pk obj then obj else r) tab"

definition save_position :: "'a orderable_scheme \<Rightarrow> ('a orderable_scheme) list \<Rightarrow> ('a orderable_scheme) list" where
  "save_position obj tab = map (\<lambda>r. if pk r = pk obj then r\<lparr>position := position obj\<rparr> else r) tab"

definition save_position_category :: "item \<Rightarrow> item list \<Rightarrow> item list" where
  "save_position_category obj tab =
     map (\<lambda>r. if pk r = pk obj then r\<lparr>position := position obj, category := category obj\<rparr> else r) tab"

definition log_action :: "target \<Rightarrow> string \<Rightarrow> nat \<Rightarrow> (string \<times> pyval) list \<Rightarrow> event_state \<Rightarrow> event_state" where
  "log_action obj act usr data st = st\<lparr>log_entries := log_entries st @ [LogEntry obj act usr data]\<rparr>"

section \<open>Single-step moves\<close>

text \<open>
  The exchange with the neighbour, written out in \<^verbatim>\<open>item_move\<close> and again in
  \<^verbatim>\<open>category_move\<close>: upwards unless the entry is the first, downwards unless it is the
  last, and nothing otherwise. The tuple assignment reads both entries before it
  writes.
\<close>

definition swap_neighbour :: "nat \<Rightarrow> bool \<Rightarrow> 'a list \<Rightarrow> 'a list" where
  "swap_neighbour index up xs =
     (if index \<noteq> 0 \<and> up then
        xs[index - 1 := xs ! index, index := xs ! (index - 1)]
      else if int index \<noteq> int (length xs) - 1 \<and> \<not> up then
        xs[index + 1 := xs ! index, index := xs ! (index + 1)]
      else xs)"

text \<open>
  \<^verbatim>\<open>item_move\<close> and \<^verbatim>\<open>category_move\<close> take the key of the entity from the URL. The
  scope is listed with \<^verbatim>\<open>order_by("position")\<close>, modelled by a stable sort: rows of
  equal position come in the order of the table. \<^verbatim>\<open>items.index(item)\<close> compares model
  instances, that is, primary keys. The success message queued for the next page is
  not part of the event state.

  The renumbering loop of \<^verbatim>\<open>item_move\<close> (\<^verbatim>\<open>for i, item in enumerate(items)\<close>):
\<close>

fun item_move_loop :: "request \<Rightarrow> nat \<Rightarrow> item list \<Rightarrow> event_state \<Rightarrow> event_state" where
  "item_move_loop rq i [] st = st"
| "item_move_loop rq i (it # its) st =
     (if position it \<noteq> int i then
        item_move_loop rq (Suc i) its
          (log_action (ItemObj (pk it)) ''pretix.event.item.reordered'' (user rq)
             [(''position'', PyInt (int i))]
             (st\<lparr>items := save_all (it\<lparr>position := int i\<rparr>) (items st),
                 writes := writes st @ [SaveRow (ItemObj (pk it)) None]\<rparr>))
      else item_move_loop rq (Suc i) its st)"

definition item_move :: "request \<Rightarrow> nat \<Rightarrow> bool \<Rightarrow> unit view" where
  "item_move rq item_id up st =
     (case get_by_id (items st) item_id of
        None \<Rightarrow> (Inl (Http404 ''The requested product does not exist.''), st)
      | Some it \<Rightarrow>
          (let its = sort_key position (filter (\<lambda>r. category r = category it) (items st)) in
           case index_of (map pk its) (pk it) of
             None \<Rightarrow> (Inl ValueError, st)
           | Some index \<Rightarrow>
               (Inr (), item_move_loop rq 0 (swap_neighbour index up its) st)))"

definition item_move_up :: "request \<Rightarrow> nat \<Rightarrow> response view" where
  "item_move_up rq item_id =
     event_permission_required rq (require_http_methods [''POST''] rq
       (\<lambda>st. case item_move rq item_id True st of
                (Inl e, st') \<Rightarrow> (Inl e, st')
              | (Inr u, st') \<Rightarrow> (Inr (Redirect ''control:event.items''), st')))"

definition item_move_down :: "request \<Rightarrow> nat \<Rightarrow> response view" where
  "item_move_down rq item_id =
     event_permission_required rq (require_http_methods [''POST''] rq
       (\<lambda>st. case item_move rq item_id False st of
                (Inl e, st') \<Rightarrow> (Inl e, st')
              | (Inr u, st') \<Rightarrow> (Inr (Redirect ''control:event.items''), st')))"

text \<open>The same for categories (\<^verbatim>\<open>for i, cat in enumerate(categories)\<close>).\<close>

fun category_move_loop :: "request \<Rightarrow> nat \<Rightarrow> orderable list \<Rightarrow> event_state \<Rightarrow> event_state" where
  "category_move_loop rq i [] st = st"
| "category_move_loop rq i (cat # cats) st =
     (if position cat \<noteq> int i then
        category_move_loop rq (Suc i) cats
          (log_action (CategoryObj (pk cat)) ''pretix.event.category.reordered'' (user rq)
             [(''position'', PyInt (int i))]
             (st\<lparr>categories := save_all (cat\<lparr>position := int i\<rparr>) (categories st),
                 writes := writes st @ [SaveRow (CategoryObj (pk cat)) None]\<rparr>))
      else category_move_loop rq (Suc i) cats st)"

definition category_move :: "request \<Rightarrow> nat \<Rightarrow> bool \<Rightarrow> unit view" where
  "category_move rq category_id up st =
     (case get_by_id (categories st) category_id of
        None \<Rightarrow> (Inl (Http404 ''The requested product category does not exist.''), st)
      | Some cat \<Rightarrow>
          (let cats = sort_key position (categories st) in
           case index_of (map pk cats) (pk cat) of
             None \<Rightarrow> (Inl ValueError, st)
           | Some index \<Rightarrow>
               (Inr (), category_move_loop rq 0 (swap_neighbour index up cats) st)))"

definition category_move_up :: "request \<Rightarrow> nat \<Rightarrow> response view" where
  "category_move_up rq category_id =
     event_permission_required rq (require_http_methods [''POST''] rq
       (\<lambda>st. case category_move rq category_id True st of
                (Inl e, st') \<Rightarrow> (Inl e, st')
              | (Inr u, st') \<Rightarrow> (Inr (Redirect ''control:event.items.categories''), st')))"

definition category_move_down :: "request \<Rightarrow> nat \<Rightarrow> response view" where
  "category_move_down rq category_id =
     event_permission_required rq (require_http_methods [''POST''] rq
       (\<lambda>st. case category_move rq category_id False st of
                (Inl e, st') \<Rightarrow> (Inl e, st')
              | (Inr u, st') \<Rightarrow> (Inr (Redirect ''control:event.items.categories''), st')))"


section \<open>Reordering by a submitted list of ids\<close>

definition expected_json :: string where
  "expected_json = ''expected JSON: {ids:[]}''"

definition invalid_ids :: string where
  "invalid_ids = ''Some of the provided object ids are invalid.''"

definition not_all_selected :: string where
  "not_all_selected = ''Not all objects have been selected.''"

subsection \<open>Reading the body\<close>

text \<open>
  The \<^verbatim>\<open>try\<close> block \<^verbatim>\<open>ids = json.loads(request.body.decode('utf-8'))['ids']\<close> with its
  handler \<^verbatim>\<open>except (JSONDecodeError, KeyError, ValueError)\<close>. Its outcome is an exception
  that the handler does not catch, the handler's response, or the value bound to
  \<^verbatim>\<open>ids\<close>. Subscripting a parsed value that is not an object with a string raises
  \<^verbatim>\<open>TypeError\<close>; an object without the name \<^verbatim>\<open>ids\<close> raises \<^verbatim>\<open>KeyError\<close>.
\<close>

datatype loaded = Uncaught exn | Caught | Loaded json

definition ids_key :: pystr where
  "ids_key = ascii ''ids''"

definition load_ids :: "request_body \<Rightarrow> loaded" where
  "load_ids b =
     (case b of
        TooBig v \<Rightarrow> Uncaught RequestDataTooBig
      | NotUtf8 \<Rightarrow> Caught
      | NotJson \<Rightarrow> Caught
      | DigitLimit \<Rightarrow> Caught
      | TooDeep v \<Rightarrow> Uncaught RecursionError
      | Json j \<Rightarrow>
          (case j of
             JObject kvs \<Rightarrow>
               (case dict_lookup kvs ids_key of None \<Rightarrow> Caught | Some v \<Rightarrow> Loaded v)
           | _ \<Rightarrow> Uncaught TypeError))"

text \<open>
  The views use \<^verbatim>\<open>ids\<close> in four ways: they iterate over it in the comprehension
  \<^verbatim>\<open>[i for i in ids if i.isdigit()]\<close>, and they evaluate \<^verbatim>\<open>len(ids)\<close>,
  \<^verbatim>\<open>ids.index(x)\<close> and \<^verbatim>\<open>s in ids\<close>. The comprehension comes first. It raises
  \<^verbatim>\<open>TypeError\<close> for a value that cannot be iterated (a number, a boolean, \<^verbatim>\<open>None\<close>) and
  \<^verbatim>\<open>AttributeError\<close> for an array with an element that is not a string. What is left is
  a list of strings, a string (iterated character by character, searched by substring)
  or a dictionary (iterated and searched by its keys, and without \<^verbatim>\<open>index\<close>).
\<close>

datatype ids = IdList "pystr list" | IdStr pystr | IdDict "pystr list"

fun json_string :: "json \<Rightarrow> pystr option" where
  "json_string (JString s) = Some s"
| "json_string j = None"

definition iterate_ids :: "json \<Rightarrow> exn + ids" where
  "iterate_ids v =
     (case v of
        JArray xs \<Rightarrow>
          if list_all (\<lambda>x. json_string x \<noteq> None) xs then Inr (IdList (List.map_filter json_string xs))
          else Inl AttributeError
      | JString s \<Rightarrow> Inr (IdStr s)
      | JObject kvs \<Rightarrow> Inr (IdDict (dict_keys kvs))
      | _ \<Rightarrow> Inl TypeError)"

fun ids_elems :: "ids \<Rightarrow> pystr list" where
  "ids_elems (IdList xs) = xs"
| "ids_elems (IdStr s) = map (\<lambda>c. [c]) s"
| "ids_elems (IdDict ks) = ks"

fun ids_len :: "ids \<Rightarrow> nat" where
  "ids_len (IdList xs) = length xs"
| "ids_len (IdStr s) = length s"
| "ids_len (IdDict ks) = length ks"

fun ids_index :: "ids \<Rightarrow> pystr \<Rightarrow> exn + nat" where
  "ids_index (IdList xs) x = (case index_of xs x of None \<Rightarrow> Inl ValueError | Some i \<Rightarrow> Inr i)"
| "ids_index (IdStr s) x = (case str_index s x of None \<Rightarrow> Inl ValueError | Some i \<Rightarrow> Inr i)"
| "ids_index (IdDict ks) x = Inl AttributeError"

fun ids_contains :: "ids \<Rightarrow> pystr \<Rightarrow> bool" where
  "ids_contains (IdList xs) x = (x \<in> set xs)"
| "ids_contains (IdStr s) x = (str_index s x \<noteq> None)"
| "ids_contains (IdDict ks) x = (x \<in> set ks)"

subsection \<open>Items\<close>

fun reorder_items_loop ::
  "request \<Rightarrow> ids \<Rightarrow> orderable option \<Rightarrow> item list \<Rightarrow> unit view" where
  "reorder_items_loop rq ids target_category [] st = (Inr (), st)"
| "reorder_items_loop rq ids target_category (i # is) st =
     (case ids_index ids (py_str (pk i)) of
        Inl e \<Rightarrow> (Inl e, st)
      | Inr pos \<Rightarrow>
          if int pos \<noteq> position i \<or> map_option pk target_category \<noteq> category i then
            (let i' = i\<lparr>position := int pos, category := map_option pk target_category\<rparr> in
             reorder_items_loop rq ids target_category is
               (log_action (ItemObj (pk i')) ''pretix.event.item.reordered'' (user rq)
                  [(''position'', PyItem i'),
                   (''category'', (case target_category of None \<Rightarrow> PyNone
                                   | Some c \<Rightarrow> PyInt (int (pk c))))]
                  (st\<lparr>items := save_position_category i' (items st),
                      writes := writes st @
                        [SaveRow (ItemObj (pk i')) (Some [''position'', ''category_id''])]\<rparr>)))
          else reorder_items_loop rq ids target_category is st)"

definition reorder_items_body :: "request \<Rightarrow> nat \<Rightarrow> response view" where
  "reorder_items_body rq category_id st =
     (case load_ids (body rq) of
        Uncaught e \<Rightarrow> (Inl e, st)
      | Caught \<Rightarrow> (Inr (HttpResponseBadRequest expected_json), st)
      | Loaded v \<Rightarrow>
          (case iterate_ids v of
             Inl e \<Rightarrow> (Inl e, st)
           | Inr ids \<Rightarrow>
               (case filter_id_in st (items st) (filter isdigit (ids_elems ids)) of
                  Inl e \<Rightarrow> (Inl e, st)
                | Inr input_items \<Rightarrow>
                    if length input_items \<noteq> ids_len ids then (Inl (Http404 invalid_ids), st)
                    else
                      (case (if category_id \<noteq> 0 then
                               (case get_by_id (categories st) category_id of
                                  None \<Rightarrow> Inl DoesNotExist
                                | Some c \<Rightarrow> Inr (Some c))
                             else Inr None) of
                         Inl e \<Rightarrow> (Inl e, st)
                       | Inr target_category \<Rightarrow>
                           (case reorder_items_loop rq ids target_category input_items st of
                              (Inl e, st') \<Rightarrow> (Inl e, st')
                            | (Inr u, st') \<Rightarrow> (Inr HttpResponse, st'))))))"

definition reorder_items :: "request \<Rightarrow> nat \<Rightarrow> response view" where
  "reorder_items rq category_id =
     atomic (event_permission_required rq (require_http_methods [''POST''] rq
       (reorder_items_body rq category_id)))"

subsection \<open>Categories\<close>

fun reorder_categories_loop :: "request \<Rightarrow> ids \<Rightarrow> orderable list \<Rightarrow> unit view" where
  "reorder_categories_loop rq ids [] st = (Inr (), st)"
| "reorder_categories_loop rq ids (c # cs) st =
     (case ids_index ids (py_str (pk c)) of
        Inl e \<Rightarrow> (Inl e, st)
      | Inr pos \<Rightarrow>
          if int pos \<noteq> position c then
            (let c' = c\<lparr>position := int pos\<rparr> in
             reorder_categories_loop rq ids cs
               (log_action (CategoryObj (pk c')) ''pretix.event.category.reordered'' (user rq)
                  [(''position'', PyInt (int pos))]
                  (st\<lparr>categories := save_position c' (categories st),
                      writes := writes st @ [SaveRow (CategoryObj (pk c')) (Some [''position''])]\<rparr>)))
          else reorder_categories_loop rq ids cs st)"

definition reorder_categories_body :: "request \<Rightarrow> response view" where
  "reorder_categories_body rq st =
     (case load_ids (body rq) of
        Uncaught e \<Rightarrow> (Inl e, st)
      | Caught \<Rightarrow> (Inr (HttpResponseBadRequest expected_json), st)
      | Loaded v \<Rightarrow>
          (case iterate_ids v of
             Inl e \<Rightarrow> (Inl e, st)
           | Inr ids \<Rightarrow>
               (case filter_id_in st (categories st) (filter isdigit (ids_elems ids)) of
                  Inl e \<Rightarrow> (Inl e, st)
                | Inr input_categories \<Rightarrow>
                    if length input_categories \<noteq> ids_len ids then
                      (Inl (Http404 invalid_ids), st)
                    else if length input_categories \<noteq> length (categories st) then
                      (Inl (Http404 not_all_selected), st)
                    else
                      (case reorder_categories_loop rq ids input_categories st of
                         (Inl e, st') \<Rightarrow> (Inl e, st')
                       | (Inr u, st') \<Rightarrow> (Inr HttpResponse, st')))))"

definition reorder_categories :: "request \<Rightarrow> response view" where
  "reorder_categories rq =
     atomic (event_permission_required rq (require_http_methods [''POST''] rq
       (reorder_categories_body rq)))"

subsection \<open>Questions and system questions\<close>

fun reorder_questions_loop :: "request \<Rightarrow> ids \<Rightarrow> orderable list \<Rightarrow> unit view" where
  "reorder_questions_loop rq ids [] st = (Inr (), st)"
| "reorder_questions_loop rq ids (q # qs) st =
     (case ids_index ids (py_str (pk q)) of
        Inl e \<Rightarrow> (Inl e, st)
      | Inr pos \<Rightarrow>
          if int pos \<noteq> position q then
            (let q' = q\<lparr>position := int pos\<rparr> in
             reorder_questions_loop rq ids qs
               (log_action (QuestionObj (pk q')) ''pretix.event.question.reordered'' (user rq)
                  [(''position'', PyInt (int pos))]
                  (st\<lparr>questions := save_position q' (questions st),
                      writes := writes st @ [SaveRow (QuestionObj (pk q')) (Some [''position''])]\<rparr>)))
          else reorder_questions_loop rq ids qs st)"

definition system_keys :: "pystr list" where
  "system_keys = map ascii [''attendee_name_parts'', ''attendee_email'', ''company'', ''street'',
                            ''zipcode'', ''city'', ''country'']"

text \<open>The loop that fills \<^verbatim>\<open>system_question_order\<close>.\<close>

fun system_question_order_loop ::
  "ids \<Rightarrow> pystr list \<Rightarrow> (pystr \<times> int) list \<Rightarrow> exn + (pystr \<times> int) list" where
  "system_question_order_loop ids [] d = Inr d"
| "system_question_order_loop ids (s # ss) d =
     (if ids_contains ids s then
        (case ids_index ids s of
           Inl e \<Rightarrow> Inl e
         | Inr i \<Rightarrow> system_question_order_loop ids ss (AList.update s (int i) d))
      else system_question_order_loop ids ss (AList.update s (- 1) d))"

definition reorder_questions_body :: "request \<Rightarrow> response view" where
  "reorder_questions_body rq st =
     (case load_ids (body rq) of
        Uncaught e \<Rightarrow> (Inl e, st)
      | Caught \<Rightarrow> (Inr (HttpResponseBadRequest expected_json), st)
      | Loaded v \<Rightarrow>
          (case iterate_ids v of
             Inl e \<Rightarrow> (Inl e, st)
           | Inr ids \<Rightarrow>
               (let custom_question_ids = filter isdigit (ids_elems ids) in
                case filter_id_in st (questions st) custom_question_ids of
                  Inl e \<Rightarrow> (Inl e, st)
                | Inr input_questions \<Rightarrow>
                    if length input_questions \<noteq> length custom_question_ids then
                      (Inl (Http404 invalid_ids), st)
                    else if length input_questions \<noteq> length (questions st) then
                      (Inl (Http404 not_all_selected), st)
                    else
                      (case reorder_questions_loop rq ids input_questions st of
                         (Inl e, st') \<Rightarrow> (Inl e, st')
                       | (Inr u, st') \<Rightarrow>
                           (case system_question_order_loop ids system_keys [] of
                              Inl e \<Rightarrow> (Inl e, st')
                            | Inr order \<Rightarrow>
                                (Inr HttpResponse,
                                 log_action EventObj ''pretix.event.settings'' (user rq)
                                   [(''system_question_order'', PyDict order)]
                                   (st'\<lparr>settings := (settings st')\<lparr>system_question_order := order\<rparr>,
                                        writes := writes st' @
                                          [SetSetting ''system_question_order'']\<rparr>)))))))"

definition reorder_questions :: "request \<Rightarrow> response view" where
  "reorder_questions rq =
     atomic (event_permission_required rq (require_http_methods [''POST''] rq
       (reorder_questions_body rq)))"

section \<open>The question list with system questions\<close>

datatype listed_question =
  FakeQuestion pystr string int bool
| Question orderable

fun q_position :: "listed_question \<Rightarrow> int" where
  "q_position (FakeQuestion i q p r) = p"
| "q_position (Question q) = position q"

text \<open>
  \<^verbatim>\<open>QuestionList.get_context_data\<close>: the system questions that are asked are appended
  in the order of the source, then the questions of the event, and the list is sorted
  by position with Python's stable \<^verbatim>\<open>list.sort\<close>.
\<close>

definition fake_questions :: "event_settings \<Rightarrow> listed_question list" where
  "fake_questions s =
     (let order = system_question_order s;
          q0 = [];
          q1 = (if attendee_names_asked s then
                  q0 @ [FakeQuestion (ascii ''attendee_name_parts'') ''Attendee name''
                          (dict_get order (ascii ''attendee_name_parts'') 0)
                          (attendee_names_required s)]
                else q0);
          q2 = (if attendee_emails_asked s then
                  q1 @ [FakeQuestion (ascii ''attendee_email'') ''Attendee email''
                          (dict_get order (ascii ''attendee_email'') 0)
                          (attendee_emails_required s)]
                else q1);
          q3 = (if attendee_company_asked s then
                  q2 @ [FakeQuestion (ascii ''company'') ''Company''
                          (dict_get order (ascii ''company'') 0) (attendee_company_required s)]
                else q2);
          q4 = (if attendee_addresses_asked s then
                  q3 @ [FakeQuestion (ascii ''street'') ''Street''
                          (dict_get order (ascii ''street'') 0) (attendee_addresses_required s),
                        FakeQuestion (ascii ''zipcode'') ''ZIP code''
                          (dict_get order (ascii ''zipcode'') 0) (attendee_addresses_required s),
                        FakeQuestion (ascii ''city'') ''City''
                          (dict_get order (ascii ''city'') 0) (attendee_addresses_required s),
                        FakeQuestion (ascii ''country'') ''Country''
                          (dict_get order (ascii ''country'') 0) (attendee_addresses_required s)]
                else q3)
      in q4)"

definition get_context_data :: "event_state \<Rightarrow> listed_question list" where
  "get_context_data st =
     sort_key q_position (fake_questions (settings st) @ map Question (questions st))"

text \<open>
  The \<^verbatim>\<open>id\<close> of a listed entry: the key of a system question, the primary key of a
  question of the event.
\<close>

fun q_id :: "listed_question \<Rightarrow> pystr + nat" where
  "q_id (FakeQuestion i q p r) = Inl i"
| "q_id (Question q) = Inr (pk q)"

text \<open>The flag that decides whether a system question is listed.\<close>

definition asked_flag :: "event_settings \<Rightarrow> pystr \<Rightarrow> bool" where
  "asked_flag s k =
     (if k = ascii ''attendee_name_parts'' then attendee_names_asked s
      else if k = ascii ''attendee_email'' then attendee_emails_asked s
      else if k = ascii ''company'' then attendee_company_asked s
      else if k \<in> set (map ascii [''street'', ''zipcode'', ''city'', ''country''])
        then attendee_addresses_asked s
      else False)"

section \<open>Vocabulary of the reconciliation properties\<close>

text \<open>
  A request that passes the permission gate and the method gate of the decorators.
\<close>

definition post_allowed :: "request \<Rightarrow> bool" where
  "post_allowed rq = (can_change_items rq \<and> http_method rq = ''POST'')"




text \<open>
  The body is a JSON object whose \<^verbatim>\<open>ids\<close> is the array of the strings \<open>xs\<close>, the wire
  format of the three endpoints.
\<close>

definition submitted :: "request \<Rightarrow> pystr list \<Rightarrow> bool" where
  "submitted rq xs = (load_ids (body rq) = Loaded (JArray (map JString xs)))"

text \<open>
  The key a submitted entry names: the entry has to pass \<^verbatim>\<open>isdigit\<close>, and \<^verbatim>\<open>int\<close> has to
  convert it. The keys named by a list are those of its entries.
\<close>

definition id_key :: "event_state \<Rightarrow> pystr \<Rightarrow> nat option" where
  "id_key st s = (if isdigit s then py_int (int_max_str_digits st) s else None)"

definition named_keys :: "event_state \<Rightarrow> pystr list \<Rightarrow> nat list" where
  "named_keys st xs = List.map_filter (id_key st) xs"

text \<open>
  A table whose keys the installation can handle in an id query: each key is within
  the digit limit and the integer bound, and the table has no more rows than a query
  takes parameters.
\<close>

definition queryable :: "event_state \<Rightarrow> ('a orderable_scheme) list \<Rightarrow> bool" where
  "queryable st tab =
     (list_all (\<lambda>r. within (int_max_str_digits st) (length (py_str (pk r)))
                  \<and> within (db_max_integer st) (pk r)) tab
      \<and> within (db_max_parameters st) (length tab))"

text \<open>
  The position a reorder request computes for a row, \<^verbatim>\<open>ids.index(str(row.pk))\<close>. When
  the key is not in the list the source raises and no position is computed; the row's
  own position is returned then.
\<close>

definition requested_position :: "pystr list \<Rightarrow> 'a orderable_scheme \<Rightarrow> int" where
  "requested_position xs r =
     (case index_of xs (py_str (pk r)) of Some i \<Rightarrow> int i | None \<Rightarrow> position r)"

text \<open>A row moves when the computed position differs from the stored one.\<close>

definition moved :: "pystr list \<Rightarrow> 'a orderable_scheme \<Rightarrow> bool" where
  "moved xs r = (requested_position xs r \<noteq> position r)"

text \<open>The table after every row with a key in \<open>S\<close> was given its computed position.\<close>

definition reindexed :: "pystr list \<Rightarrow> nat set \<Rightarrow> ('a orderable_scheme) list \<Rightarrow> ('a orderable_scheme) list" where
  "reindexed xs S tab =
     map (\<lambda>r. if pk r \<in> S then r\<lparr>position := requested_position xs r\<rparr> else r) tab"

text \<open>
  An item is written when its computed position or the target category differs from
  what is stored; \<open>reassigned\<close> is the item table after every item with a key in \<open>S\<close>
  was given its computed position and the target category.
\<close>

definition item_moved :: "pystr list \<Rightarrow> nat option \<Rightarrow> item \<Rightarrow> bool" where
  "item_moved xs target i = (requested_position xs i \<noteq> position i \<or> target \<noteq> category i)"

definition reassigned :: "pystr list \<Rightarrow> nat option \<Rightarrow> nat set \<Rightarrow> item list \<Rightarrow> item list" where
  "reassigned xs target S tab =
     map (\<lambda>r. if pk r \<in> S then r\<lparr>position := requested_position xs r, category := target\<rparr> else r) tab"

text \<open>The rows of a table whose key is the decimal value of one of the strings.\<close>

definition selected_rows :: "('a orderable_scheme) list \<Rightarrow> pystr list \<Rightarrow> ('a orderable_scheme) list" where
  "selected_rows tab vals = filter (\<lambda>r. pk r \<in> set (map decimal_value vals)) tab"

text \<open>The indices of the submitted list that hold digit strings, that is, question ids.\<close>

definition digit_indices :: "pystr list \<Rightarrow> nat list" where
  "digit_indices xs = filter (\<lambda>i. isdigit (xs ! i)) [0..<length xs]"

text \<open>The index of a system key in the submitted list, or -1.\<close>

definition system_index :: "pystr list \<Rightarrow> pystr \<Rightarrow> int" where
  "system_index xs s = (case index_of xs s of Some i \<Rightarrow> int i | None \<Rightarrow> - 1)"

text \<open>
  The entries of an enumerated list whose position differs from their index (counted
  from \<open>i\<close>), and the table after every row whose key is in the list was given its index
  as position.
\<close>

definition misplaced :: "nat \<Rightarrow> ('a orderable_scheme) list \<Rightarrow> (nat \<times> 'a orderable_scheme) list" where
  "misplaced i xs = filter (\<lambda>(j, c). position c \<noteq> int j) (zip [i..<i + length xs] xs)"

definition renumbered :: "nat \<Rightarrow> ('a orderable_scheme) list \<Rightarrow> ('a orderable_scheme) list \<Rightarrow> ('a orderable_scheme) list" where
  "renumbered i xs tab =
     map (\<lambda>r. case index_of (map pk xs) (pk r) of Some j \<Rightarrow> r\<lparr>position := int (i + j)\<rparr> | None \<Rightarrow> r) tab"

text \<open>The positions of a list are contiguous when its sorted positions are 0, ..., n-1.\<close>

definition contiguous :: "('a orderable_scheme) list \<Rightarrow> bool" where
  "contiguous tab = (map position (sort_key position tab) = map int [0..<length tab])"

text \<open>
  The list order a move of the entity with key \<open>k\<close> produces from the rows of its scope:
  the rows ordered by position, with the entity exchanged with its neighbour. The scope
  of an item is the set of items of its category.
\<close>

definition moved_order :: "nat \<Rightarrow> bool \<Rightarrow> ('a orderable_scheme) list \<Rightarrow> ('a orderable_scheme) list" where
  "moved_order k up scope =
     (case index_of (map pk (sort_key position scope)) k of
        Some i \<Rightarrow> swap_neighbour i up (sort_key position scope)
      | None \<Rightarrow> sort_key position scope)"

definition item_scope :: "event_state \<Rightarrow> nat \<Rightarrow> item list" where
  "item_scope st k =
     (case get_by_id (items st) k of
        Some it \<Rightarrow> filter (\<lambda>r. category r = category it) (items st)
      | None \<Rightarrow> [])"

text \<open>The entity is the first of its scope and moves up, or is the last and moves down.\<close>

definition at_boundary :: "nat \<Rightarrow> bool \<Rightarrow> ('a orderable_scheme) list \<Rightarrow> bool" where
  "at_boundary k up scope =
     (scope \<noteq> [] \<and> (if up then pk (hd (sort_key position scope)) = k
                      else pk (last (sort_key position scope)) = k))"

section \<open>Example requests and states\<close>

text \<open>
  A permitted POST request with a given body; the request of a move button, a form whose
  body is not JSON; and the body \<^verbatim>\<open>{"ids": [...]}\<close> for a list of strings and for a list
  of ASCII strings.
\<close>

definition post :: "request_body \<Rightarrow> request" where
  "post b = \<lparr>http_method = ''POST'', user = 7, can_change_items = True, body = b\<rparr>"

definition form_post :: request where
  "form_post = post NotJson"

definition body_of_ids :: "pystr list \<Rightarrow> request_body" where
  "body_of_ids xs = Json (JObject [(ascii ''ids'', JArray (map JString xs))])"

definition ids_body :: "string list \<Rightarrow> request_body" where
  "ids_body xs = body_of_ids (map ascii xs)"



text \<open>SUPERSCRIPT TWO (U+00B2) and ARABIC-INDIC DIGIT ONE (U+0661) as strings.\<close>

definition superscript_two :: pystr where
  "superscript_two = [OtherDigit 178]"

definition arabic_indic_one :: pystr where
  "arabic_indic_one = [Decimal 11]"

definition no_settings :: event_settings where
  "no_settings = \<lparr>attendee_names_asked = False, attendee_names_required = False,
     attendee_emails_asked = False, attendee_emails_required = False,
     attendee_company_asked = False, attendee_company_required = False,
     attendee_addresses_asked = False, attendee_addresses_required = False,
     system_question_order = []\<rparr>"

text \<open>The empty event of an installation without bounds.\<close>

definition empty_event :: event_state where
  "empty_event = \<lparr>items = [], categories = [], questions = [], settings = no_settings,
     log_entries = [], writes = [],
     int_max_str_digits = None, db_max_integer = None, db_max_parameters = None\<rparr>"


text \<open>
  The event of the merge example: attendee names and emails are asked, stored at the
  positions 2 and 0, and there are two questions at the positions 1 and 3.
\<close>

definition overlay_event :: event_state where
  "overlay_event = empty_event\<lparr>
     questions := [\<lparr>pk = 17, position = 1\<rparr>, \<lparr>pk = 18, position = 3\<rparr>],
     settings := no_settings\<lparr>attendee_names_asked := True, attendee_emails_asked := True,
       system_question_order :=
         [(ascii ''attendee_name_parts'', 2), (ascii ''attendee_email'', 0)]\<rparr>\<rparr>"

text \<open>
  Three categories A, B, C (keys 1, 2, 3) at the positions 0, 1, 2, and the same event
  after C, A, B was requested.
\<close>

definition three_categories :: event_state where
  "three_categories = empty_event\<lparr>categories :=
     [\<lparr>pk = 1, position = 0\<rparr>, \<lparr>pk = 2, position = 1\<rparr>, \<lparr>pk = 3, position = 2\<rparr>]\<rparr>"

definition three_categories_cab :: event_state where
  "three_categories_cab = empty_event\<lparr>
     categories := [\<lparr>pk = 1, position = 1\<rparr>, \<lparr>pk = 2, position = 2\<rparr>, \<lparr>pk = 3, position = 0\<rparr>],
     log_entries :=
       [LogEntry (CategoryObj 1) ''pretix.event.category.reordered'' 7 [(''position'', PyInt 1)],
        LogEntry (CategoryObj 2) ''pretix.event.category.reordered'' 7 [(''position'', PyInt 2)],
        LogEntry (CategoryObj 3) ''pretix.event.category.reordered'' 7 [(''position'', PyInt 0)]],
     writes :=
       [SaveRow (CategoryObj 1) (Some [''position'']), SaveRow (CategoryObj 2) (Some [''position'']),
        SaveRow (CategoryObj 3) (Some [''position''])]\<rparr>"

text \<open>
  An event with the single question 17, and the same event after the order
  \<^verbatim>\<open>attendee_email, 17, attendee_name_parts\<close> was requested.
\<close>

definition one_question :: event_state where
  "one_question = empty_event\<lparr>questions := [\<lparr>pk = 17, position = 0\<rparr>]\<rparr>"

definition email_17_name :: "string list" where
  "email_17_name = [''attendee_email'', ''17'', ''attendee_name_parts'']"

definition one_question_reordered :: event_state where
  "one_question_reordered = empty_event\<lparr>
     questions := [\<lparr>pk = 17, position = 1\<rparr>],
     settings := no_settings\<lparr>system_question_order :=
       [(ascii ''attendee_name_parts'', 2), (ascii ''attendee_email'', 0), (ascii ''company'', - 1),
        (ascii ''street'', - 1), (ascii ''zipcode'', - 1), (ascii ''city'', - 1),
        (ascii ''country'', - 1)]\<rparr>,
     log_entries :=
       [LogEntry (QuestionObj 17) ''pretix.event.question.reordered'' 7 [(''position'', PyInt 1)],
        LogEntry EventObj ''pretix.event.settings'' 7
          [(''system_question_order'', PyDict
             [(ascii ''attendee_name_parts'', 2), (ascii ''attendee_email'', 0),
              (ascii ''company'', - 1), (ascii ''street'', - 1), (ascii ''zipcode'', - 1),
              (ascii ''city'', - 1), (ascii ''country'', - 1)])]],
     writes := [SaveRow (QuestionObj 17) (Some [''position'']), SetSetting ''system_question_order'']\<rparr>"

text \<open>The event with question 17 in which attendee names are asked.\<close>

definition asks_names :: event_state where
  "asks_names = one_question\<lparr>settings := no_settings\<lparr>attendee_names_asked := True\<rparr>\<rparr>"

text \<open>
  Three items: 1 and 2 without category at the positions 0 and 1, and 3 in category 5
  at position 0.
\<close>

definition three_items :: event_state where
  "three_items = empty_event\<lparr>
     items := [\<lparr>pk = 1, position = 0, category = None\<rparr>, \<lparr>pk = 2, position = 1, category = None\<rparr>,
               \<lparr>pk = 3, position = 0, category = Some 5\<rparr>],
     categories := [\<lparr>pk = 5, position = 0\<rparr>]\<rparr>"

text \<open>An event with items, one category and one question; the event with category 1 only.\<close>

definition busy_event :: event_state where
  "busy_event = three_items\<lparr>questions := [\<lparr>pk = 17, position = 0\<rparr>]\<rparr>"

definition one_category :: event_state where
  "one_category = empty_event\<lparr>categories := [\<lparr>pk = 1, position = 0\<rparr>]\<rparr>"


text \<open>
  Two categories left with a gap at position 0, and items of which two share a
  position.
\<close>

definition gap_categories :: event_state where
  "gap_categories = empty_event\<lparr>categories := [\<lparr>pk = 1, position = 1\<rparr>, \<lparr>pk = 2, position = 2\<rparr>]\<rparr>"

definition tied_items :: event_state where
  "tied_items = empty_event\<lparr>
     items := [\<lparr>pk = 1, position = 2, category = None\<rparr>, \<lparr>pk = 2, position = 2, category = None\<rparr>,
               \<lparr>pk = 3, position = 0, category = Some 5\<rparr>],
     categories := [\<lparr>pk = 5, position = 0\<rparr>]\<rparr>"

section \<open>Strings, indices and queries\<close>

lemma py_str_digits: "py_str n \<noteq> [] \<and> list_all is_decimal (py_str n)"
proof (induction n rule: py_str.induct)
  case (1 n)
  show ?case
  proof (cases "n < 10")
    case True
    then show ?thesis by (subst py_str.simps, subst py_str.simps) simp
  next
    case False
    with 1 have "list_all is_decimal (py_str (n div 10))" by simp
    then show ?thesis using False
      by (subst py_str.simps, subst (2) py_str.simps) simp
  qed
qed

lemma is_decimal_is_digit: "is_decimal c \<Longrightarrow> is_digit c"
  by (cases c) simp_all

lemma isdigit_py_str: "isdigit (py_str n)"
  using py_str_digits [of n] by (auto simp: isdigit_def list_all_iff is_decimal_is_digit)

lemma decimal_value_snoc: "decimal_value (s @ [c]) = 10 * decimal_value s + digit_val c"
  by (simp add: decimal_value_def)

lemma decimal_value_py_str: "decimal_value (py_str n) = n"
proof (induction n rule: py_str.induct)
  case (1 n)
  show ?case
  proof (cases "n < 10")
    case True
    then show ?thesis
      by (subst py_str.simps) (simp add: decimal_value_def)
  next
    case False
    with 1 have "decimal_value (py_str (n div 10)) = n div 10" by simp
    then show ?thesis using False
      by (subst py_str.simps) (simp add: decimal_value_snoc)
  qed
qed

lemma py_str_inj: "py_str a = py_str b \<Longrightarrow> a = b"
  by (metis decimal_value_py_str)

lemma py_int_Some: "py_int lim s = Some k \<Longrightarrow> k = decimal_value s"
  by (simp add: py_int_def split: if_splits)

lemma py_int_py_str:
  "within lim (length (py_str n)) \<Longrightarrow> py_int lim (py_str n) = Some n"
  using py_str_digits [of n] by (simp add: py_int_def decimal_value_py_str)

lemma id_key_Some: "id_key st s = Some k \<Longrightarrow> isdigit s \<and> k = decimal_value s"
  by (auto simp: id_key_def dest: py_int_Some split: if_splits)

lemma id_key_py_str:
  "within (int_max_str_digits st) (length (py_str n)) \<Longrightarrow> id_key st (py_str n) = Some n"
  by (simp add: id_key_def isdigit_py_str py_int_py_str)

lemma ascii_char_inj: "ascii_char a = ascii_char b \<Longrightarrow> a = b"
proof -
  assume e: "ascii_char a = ascii_char b"
  define m n where "m = (of_char a :: nat)" and "n = (of_char b :: nat)"
  from e have "(if 48 \<le> m \<and> m \<le> 57 then Decimal (m - 48) else NonDigit m)
      = (if 48 \<le> n \<and> n \<le> 57 then Decimal (n - 48) else NonDigit n)"
    by (simp only: ascii_char_def m_def n_def)
  then have "m = n" by (auto split: if_splits)
  then show "a = b" by (simp add: m_def n_def)
qed

lemma ascii_eq_iff [simp]: "ascii a = ascii b \<longleftrightarrow> a = b"
proof
  assume "ascii a = ascii b"
  then show "a = b"
    unfolding ascii_def
    by (induction a arbitrary: b) (auto dest: ascii_char_inj)
qed simp

lemma index_of_None: "index_of xs x = None \<longleftrightarrow> x \<notin> set xs"
  by (induction xs) auto

lemma index_of_Some: "index_of xs x = Some i \<Longrightarrow> i < length xs \<and> xs ! i = x"
  by (induction xs arbitrary: i) (auto split: if_splits)

lemma index_of_inj: "index_of xs x = Some i \<Longrightarrow> index_of xs y = Some i \<Longrightarrow> x = y"
  using index_of_Some by metis

lemma submitted_body_of_ids: "submitted (post (body_of_ids xs)) xs"
  by (simp add: submitted_def post_def body_of_ids_def load_ids_def dict_lookup_def ids_key_def)

lemma submitted_post: "submitted (post (ids_body xs)) (map ascii xs)"
  by (simp add: ids_body_def submitted_body_of_ids)

lemma post_allowed_post: "post_allowed (post b)"
  by (simp add: post_allowed_def post_def)

section \<open>Malformed requests\<close>


















section \<open>The question list\<close>

lemma filter_asked:
  "filter (asked_flag s) system_keys =
     (if attendee_names_asked s then [ascii ''attendee_name_parts''] else [])
   @ (if attendee_emails_asked s then [ascii ''attendee_email''] else [])
   @ (if attendee_company_asked s then [ascii ''company''] else [])
   @ (if attendee_addresses_asked s
      then [ascii ''street'', ascii ''zipcode'', ascii ''city'', ascii ''country''] else [])"
  by (simp add: system_keys_def asked_flag_def)

lemma fake_questions_ids:
  "map q_id (fake_questions s) = map Inl (filter (asked_flag s) system_keys)"
  unfolding filter_asked by (simp add: fake_questions_def Let_def)

lemma fake_questions_positions:
  "map q_position (fake_questions s) =
   map (\<lambda>k. dict_get (system_question_order s) k 0) (filter (asked_flag s) system_keys)"
  unfolding filter_asked by (simp add: fake_questions_def Let_def)

lemma sorted_precedes:
  assumes "sorted (map f xs)" "i < length xs" "j < length xs" "f (xs ! i) < f (xs ! j)"
  shows "i < j"
proof (rule ccontr)
  assume "\<not> i < j"
  then have "j \<le> i" by simp
  with assms(1,2) have "map f xs ! j \<le> map f xs ! i"
    by (simp add: sorted_iff_nth_mono)
  with assms show False by simp
qed

lemma get_context_data_overlay_event:
  "get_context_data overlay_event =
     [FakeQuestion (ascii ''attendee_email'') ''Attendee email'' 0 False,
      Question \<lparr>pk = 17, position = 1\<rparr>,
      FakeQuestion (ascii ''attendee_name_parts'') ''Attendee name'' 2 False,
      Question \<lparr>pk = 18, position = 3\<rparr>]"
  by (simp add: get_context_data_def overlay_event_def empty_event_def no_settings_def
      fake_questions_def dict_get_def)

text \<open>
  C9. The system questions listed by \<^verbatim>\<open>QuestionList.get_context_data\<close> are, in the
  order of the seven keys, exactly those whose asked-flag is set (the four address keys
  share one flag), each at the position stored under its key in
  \<^verbatim>\<open>system_question_order\<close>, or 0 when the key is absent. The displayed list is a
  permutation of these entries followed by the questions of the event, sorted by
  position, with entries of equal position in the order of that concatenation, so an
  entry of smaller position always comes before one of greater position.
\<close>

theorem question_list_overlay:
  "map q_id (fake_questions (settings st)) = map Inl (filter (asked_flag (settings st)) system_keys)
 \<and> map q_position (fake_questions (settings st)) =
     map (\<lambda>k. dict_get (system_question_order (settings st)) k 0)
       (filter (asked_flag (settings st)) system_keys)
 \<and> mset (get_context_data st) = mset (fake_questions (settings st) @ map Question (questions st))
 \<and> sorted (map q_position (get_context_data st))
 \<and> (\<forall>p. filter (\<lambda>q. q_position q = p) (get_context_data st) =
         filter (\<lambda>q. q_position q = p) (fake_questions (settings st) @ map Question (questions st)))
 \<and> (\<forall>i j. i < length (get_context_data st) \<and> j < length (get_context_data st)
        \<and> q_position (get_context_data st ! i) < q_position (get_context_data st ! j) \<longrightarrow> i < j)"
proof -
  have srt: "sorted (map q_position (get_context_data st))"
    by (simp add: get_context_data_def)
  have "\<forall>i j. i < length (get_context_data st) \<and> j < length (get_context_data st)
        \<and> q_position (get_context_data st ! i) < q_position (get_context_data st ! j) \<longrightarrow> i < j"
    using sorted_precedes [OF srt] by blast
  moreover have "\<forall>p. filter (\<lambda>q. q_position q = p) (get_context_data st) =
         filter (\<lambda>q. q_position q = p) (fake_questions (settings st) @ map Question (questions st))"
    unfolding get_context_data_def by (simp only: sort_key_stable) simp
  moreover have "mset (get_context_data st)
      = mset (fake_questions (settings st) @ map Question (questions st))"
    unfolding get_context_data_def by (simp only: mset_sort)
  ultimately show ?thesis
    using srt fake_questions_ids [of "settings st"] fake_questions_positions [of "settings st"]
    by simp
qed

theorem question_list_overlay_witness:
  "(1::nat) < length (get_context_data overlay_event)
 \<and> 2 < length (get_context_data overlay_event)
 \<and> q_position (get_context_data overlay_event ! 1) < q_position (get_context_data overlay_event ! 2)
 \<and> (1::nat) < 2
 \<and> map q_id (get_context_data overlay_event) 
     = [Inl (ascii ''attendee_email''), Inr 17, Inl (ascii ''attendee_name_parts''), Inr 18]
 \<and> sorted (map q_position (get_context_data overlay_event))"
  using question_list_overlay [of overlay_event]
  by (simp add: get_context_data_overlay_event)

section \<open>Queries by id and reassigned positions\<close>

lemma json_strings_all: "list_all (\<lambda>x. json_string x \<noteq> None) (map JString xs)"
  by (auto simp: list_all_iff)

lemma json_strings_map_filter [simp]: "List.map_filter json_string (map JString xs) = xs"
  by (induction xs) (simp_all add: List.map_filter_simps)

lemma iterate_ids_strings [simp]: "iterate_ids (JArray (map JString xs)) = Inr (IdList xs)"
  by (auto simp: iterate_ids_def list_all_iff)

lemma filter_id_in_eq:
  "filter_id_in st tab vals =
     (case id_query_error st vals of Some e \<Rightarrow> Inl e | None \<Rightarrow> Inr (selected_rows tab vals))"
  by (simp add: filter_id_in_def selected_rows_def split: option.splits)

lemma filter_id_in_Inr:
  "filter_id_in st tab vals = Inr rows \<longleftrightarrow>
     id_query_error st vals = None \<and> rows = selected_rows tab vals"
  by (auto simp: filter_id_in_eq split: option.splits)


lemma length_filter_eq_all: "length (filter P xs) = length xs \<longleftrightarrow> (\<forall>x\<in>set xs. P x)"
proof
  assume a: "length (filter P xs) = length xs"
  show "\<forall>x\<in>set xs. P x"
  proof (rule ccontr)
    assume "\<not> (\<forall>x\<in>set xs. P x)"
    then obtain x where "x \<in> set xs" "\<not> P x" by blast
    then have "length (filter P xs) < length xs" by (rule length_filter_less)
    with a show False by simp
  qed
qed simp

lemma length_selected_rows:
  assumes "distinct (map pk tab)"
  shows "length (selected_rows tab vals) = card (pk ` set tab \<inter> decimal_value ` set vals)"
proof -
  have "length (selected_rows tab vals) = length (filter (\<lambda>k. k \<in> decimal_value ` set vals) (map pk tab))"
    by (simp add: selected_rows_def filter_map comp_def)
  also have "\<dots> = card (set (filter (\<lambda>k. k \<in> decimal_value ` set vals) (map pk tab)))"
    using assms distinct_card [of "filter (\<lambda>k. k \<in> decimal_value ` set vals) (map pk tab)"]
    by (simp only: distinct_filter)
  also have "set (filter (\<lambda>k. k \<in> decimal_value ` set vals) (map pk tab)) = pk ` set tab \<inter> decimal_value ` set vals"
    by auto
  finally show ?thesis .
qed

lemma resolved_iff:
  assumes "distinct (map pk tab)"
  shows "length (selected_rows tab vals) = length vals \<longleftrightarrow>
         (\<forall>s\<in>set vals. decimal_value s \<in> pk ` set tab) \<and> distinct (map decimal_value vals)"
proof -
  let ?S = "decimal_value ` set vals"
  have le1: "card (pk ` set tab \<inter> ?S) \<le> card ?S"
    by (simp add: card_mono)
  have le2: "card ?S \<le> length vals"
    using card_length [of "map decimal_value vals"] by simp
  show ?thesis
  proof
    assume "length (selected_rows tab vals) = length vals"
    then have eq: "card (pk ` set tab \<inter> ?S) = length vals"
      by (simp add: length_selected_rows [OF assms])
    with le1 le2 have c1: "card (pk ` set tab \<inter> ?S) = card ?S" and c2: "card ?S = length vals"
      by simp_all
    from c1 have "pk ` set tab \<inter> ?S = ?S"
      by (intro card_subset_eq) auto
    then have "\<forall>s\<in>set vals. decimal_value s \<in> pk ` set tab" by blast
    moreover from c2 have "distinct (map decimal_value vals)"
      by (intro card_distinct) simp
    ultimately show "(\<forall>s\<in>set vals. decimal_value s \<in> pk ` set tab) \<and> distinct (map decimal_value vals)" ..
  next
    assume a: "(\<forall>s\<in>set vals. decimal_value s \<in> pk ` set tab) \<and> distinct (map decimal_value vals)"
    then have "pk ` set tab \<inter> ?S = ?S" by blast
    moreover from a have "card ?S = length vals"
      using distinct_card [of "map decimal_value vals"] by simp
    ultimately show "length (selected_rows tab vals) = length vals"
      by (simp add: length_selected_rows [OF assms])
  qed
qed

lemma all_selected_iff:
  assumes "distinct (map pk tab)"
  shows "length (selected_rows tab vals) = length tab \<longleftrightarrow> pk ` set tab \<subseteq> decimal_value ` set vals"
proof -
  have "length (selected_rows tab vals) = length tab \<longleftrightarrow> (\<forall>r\<in>set tab. pk r \<in> decimal_value ` set vals)"
    unfolding selected_rows_def by (simp add: length_filter_eq_all)
  then show ?thesis by blast
qed

lemma selected_rows_all:
  "length (selected_rows tab vals) = length tab \<Longrightarrow> selected_rows tab vals = tab"
  unfolding selected_rows_def by (simp add: length_filter_eq_all)

lemma length_selected_rows_le:
  assumes "distinct (map pk tab)"
  shows "length (selected_rows tab vals) \<le> length vals"
proof -
  have "card (pk ` set tab \<inter> decimal_value ` set vals) \<le> card (decimal_value ` set vals)"
    by (simp add: card_mono)
  also have "\<dots> \<le> length vals"
    using card_length [of "map decimal_value vals"] by simp
  finally show ?thesis by (simp add: length_selected_rows [OF assms])
qed

lemma all_digits_iff:
  assumes "distinct (map pk tab)"
  shows "length (selected_rows tab (filter isdigit ids)) = length ids \<longleftrightarrow>
         (\<forall>s\<in>set ids. isdigit s \<and> decimal_value s \<in> pk ` set tab) \<and> distinct (map decimal_value ids)"
proof
  assume a: "length (selected_rows tab (filter isdigit ids)) = length ids"
  have "length (selected_rows tab (filter isdigit ids)) \<le> length (filter isdigit ids)"
    by (rule length_selected_rows_le [OF assms])
  with a have "length (filter isdigit ids) = length ids"
    using length_filter_le [of isdigit ids] by simp
  then have all: "\<forall>s\<in>set ids. isdigit s" by (simp add: length_filter_eq_all)
  then have "filter isdigit ids = ids" by simp
  with a have "length (selected_rows tab ids) = length ids" by simp
  with all show "(\<forall>s\<in>set ids. isdigit s \<and> decimal_value s \<in> pk ` set tab) \<and> distinct (map decimal_value ids)"
    by (simp add: resolved_iff [OF assms])
next
  assume a: "(\<forall>s\<in>set ids. isdigit s \<and> decimal_value s \<in> pk ` set tab) \<and> distinct (map decimal_value ids)"
  then have "filter isdigit ids = ids" by simp
  with a show "length (selected_rows tab (filter isdigit ids)) = length ids"
    by (simp add: resolved_iff [OF assms])
qed


lemma map_pk_save_position [simp]: "map pk (save_position obj tab) = map pk tab"
  by (simp add: save_position_def)

lemma save_position_other:
  "x \<in> set tab \<Longrightarrow> pk x \<noteq> pk obj \<Longrightarrow> x \<in> set (save_position obj tab)"
  by (force simp: save_position_def)

lemma same_pk_same_row:
  "distinct (map pk tab) \<Longrightarrow> r \<in> set tab \<Longrightarrow> c \<in> set tab \<Longrightarrow> pk r = pk c \<Longrightarrow> r = c"
  by (meson distinct_map inj_onD)

lemma reindexed_step:
  assumes d: "distinct (map pk tab)" and c: "c \<in> set tab" and n: "pk c \<notin> S"
    and p: "position c' = requested_position ids c" and c': "c' = c\<lparr>position := position c'\<rparr>"
  shows "reindexed ids S (save_position c' tab) = reindexed ids (insert (pk c) S) tab"
  unfolding reindexed_def save_position_def map_map
proof (rule map_cong [OF refl])
  fix r assume r: "r \<in> set tab"
  have pkc: "pk c' = pk c" by (subst c') simp
  show "((\<lambda>r. if pk r \<in> S then r\<lparr>position := requested_position ids r\<rparr> else r) \<circ>
          (\<lambda>r. if pk r = pk c' then r\<lparr>position := position c'\<rparr> else r)) r
      = (if pk r \<in> insert (pk c) S then r\<lparr>position := requested_position ids r\<rparr> else r)"
  proof (cases "pk r = pk c")
    case True
    with d r c have "r = c" by (rule same_pk_same_row)
    with n p pkc show ?thesis by simp
  next
    case False
    with pkc show ?thesis by simp
  qed
qed

lemma reindexed_skip:
  assumes d: "distinct (map pk tab)" and c: "c \<in> set tab"
    and p: "position c = requested_position ids c"
  shows "reindexed ids S tab = reindexed ids (insert (pk c) S) tab"
  unfolding reindexed_def
proof (rule map_cong [OF refl])
  fix r assume r: "r \<in> set tab"
  show "(if pk r \<in> S then r\<lparr>position := requested_position ids r\<rparr> else r)
      = (if pk r \<in> insert (pk c) S then r\<lparr>position := requested_position ids r\<rparr> else r)"
  proof (cases "pk r = pk c")
    case True
    with d r c have "r = c" by (rule same_pk_same_row)
    with p show ?thesis by simp
  next
    case False
    then show ?thesis by simp
  qed
qed

lemma reorder_categories_loop_result:
  assumes "reorder_categories_loop rq (IdList ids) cs st = (Inr (), st')"
    and "distinct (map pk (categories st))" and "set cs \<subseteq> set (categories st)"
    and "distinct (map pk cs)"
  shows "categories st' = reindexed ids (pk ` set cs) (categories st)
       \<and> log_entries st' = log_entries st @
           map (\<lambda>c. LogEntry (CategoryObj (pk c)) ''pretix.event.category.reordered'' (user rq)
                      [(''position'', PyInt (requested_position ids c))]) (filter (moved ids) cs)
       \<and> writes st' = writes st @
           map (\<lambda>c. SaveRow (CategoryObj (pk c)) (Some [''position''])) (filter (moved ids) cs)
       \<and> items st' = items st \<and> questions st' = questions st \<and> settings st' = settings st
       \<and> (\<forall>c\<in>set cs. py_str (pk c) \<in> set ids)"
  using assms
proof (induction cs arbitrary: st)
  case Nil
  then show ?case by (simp add: reindexed_def)
next
  case (Cons c cs)
  from Cons.prems(1) obtain pos where pos: "index_of ids (py_str (pk c)) = Some pos"
    by (cases "index_of ids (py_str (pk c))") auto
  then have rp: "requested_position ids c = int pos" by (simp add: requested_position_def)
  from pos have mem: "py_str (pk c) \<in> set ids" using index_of_None [of ids "py_str (pk c)"] by simp
  from Cons.prems(3) have cin: "c \<in> set (categories st)" and sub: "set cs \<subseteq> set (categories st)"
    by simp_all
  from Cons.prems(4) have notin: "pk c \<notin> pk ` set cs" and dcs: "distinct (map pk cs)" by simp_all
  show ?case
  proof (cases "int pos \<noteq> position c")
    case True
    let ?c' = "c\<lparr>position := int pos\<rparr>"
    let ?st1 = "log_action (CategoryObj (pk c)) ''pretix.event.category.reordered'' (user rq)
                  [(''position'', PyInt (int pos))]
                  (st\<lparr>categories := save_position ?c' (categories st),
                      writes := writes st @ [SaveRow (CategoryObj (pk c)) (Some [''position''])]\<rparr>)"
    from Cons.prems(1) pos True have run: "reorder_categories_loop rq (IdList ids) cs ?st1 = (Inr (), st')"
      by (simp add: Let_def)
    have cats1: "categories ?st1 = save_position ?c' (categories st)" by (simp add: log_action_def)
    have d1: "distinct (map pk (categories ?st1))"
      using Cons.prems(2) by (simp only: cats1 map_pk_save_position)
    have sub1: "set cs \<subseteq> set (categories ?st1)"
    proof
      fix x assume x: "x \<in> set cs"
      then have "pk x \<in> pk ` set cs" by (rule imageI)
      with notin have "pk x \<noteq> pk ?c'" by auto
      with sub x show "x \<in> set (categories ?st1)"
        unfolding cats1 by (intro save_position_other) auto
    qed
    note IH = Cons.IH [OF run d1 sub1 dcs]
    have step: "reindexed ids (pk ` set cs) (save_position ?c' (categories st))
        = reindexed ids (insert (pk c) (pk ` set cs)) (categories st)"
      by (rule reindexed_step [OF Cons.prems(2) cin notin]) (simp_all add: rp)
    from True rp have mv: "moved ids c" by (simp add: moved_def)
    from IH step mv rp mem show ?thesis
      by (simp add: cats1 log_action_def)
  next
    case False
    with Cons.prems(1) pos have run: "reorder_categories_loop rq (IdList ids) cs st = (Inr (), st')"
      by simp
    note IH = Cons.IH [OF run Cons.prems(2) sub dcs]
    from False rp have same: "position c = requested_position ids c" by simp
    then have mv: "\<not> moved ids c" by (simp add: moved_def)
    have "reindexed ids (pk ` set cs) (categories st)
        = reindexed ids (insert (pk c) (pk ` set cs)) (categories st)"
      by (rule reindexed_skip [OF Cons.prems(2) cin same])
    with IH mv mem show ?thesis by simp
  qed
qed

lemma reorder_categories_loop_total:
  "\<forall>c\<in>set cs. py_str (pk c) \<in> set ids \<Longrightarrow> \<exists>st'. reorder_categories_loop rq (IdList ids) cs st = (Inr (), st')"
proof (induction cs arbitrary: st)
  case Nil
  then show ?case by simp
next
  case (Cons c cs)
  then obtain pos where "index_of ids (py_str (pk c)) = Some pos"
    using index_of_None [of ids "py_str (pk c)"] by auto
  with Cons show ?case by (simp add: Let_def)
qed

lemma reorder_questions_loop_result:
  assumes "reorder_questions_loop rq (IdList ids) cs st = (Inr (), st')"
    and "distinct (map pk (questions st))" and "set cs \<subseteq> set (questions st)"
    and "distinct (map pk cs)"
  shows "questions st' = reindexed ids (pk ` set cs) (questions st)
       \<and> log_entries st' = log_entries st @
           map (\<lambda>c. LogEntry (QuestionObj (pk c)) ''pretix.event.question.reordered'' (user rq)
                      [(''position'', PyInt (requested_position ids c))]) (filter (moved ids) cs)
       \<and> writes st' = writes st @
           map (\<lambda>c. SaveRow (QuestionObj (pk c)) (Some [''position''])) (filter (moved ids) cs)
       \<and> items st' = items st \<and> categories st' = categories st \<and> settings st' = settings st
       \<and> (\<forall>c\<in>set cs. py_str (pk c) \<in> set ids)"
  using assms
proof (induction cs arbitrary: st)
  case Nil
  then show ?case by (simp add: reindexed_def)
next
  case (Cons c cs)
  from Cons.prems(1) obtain pos where pos: "index_of ids (py_str (pk c)) = Some pos"
    by (cases "index_of ids (py_str (pk c))") auto
  then have rp: "requested_position ids c = int pos" by (simp add: requested_position_def)
  from pos have mem: "py_str (pk c) \<in> set ids" using index_of_None [of ids "py_str (pk c)"] by simp
  from Cons.prems(3) have cin: "c \<in> set (questions st)" and sub: "set cs \<subseteq> set (questions st)"
    by simp_all
  from Cons.prems(4) have notin: "pk c \<notin> pk ` set cs" and dcs: "distinct (map pk cs)" by simp_all
  show ?case
  proof (cases "int pos \<noteq> position c")
    case True
    let ?c' = "c\<lparr>position := int pos\<rparr>"
    let ?st1 = "log_action (QuestionObj (pk c)) ''pretix.event.question.reordered'' (user rq)
                  [(''position'', PyInt (int pos))]
                  (st\<lparr>questions := save_position ?c' (questions st),
                      writes := writes st @ [SaveRow (QuestionObj (pk c)) (Some [''position''])]\<rparr>)"
    from Cons.prems(1) pos True have run: "reorder_questions_loop rq (IdList ids) cs ?st1 = (Inr (), st')"
      by (simp add: Let_def)
    have cats1: "questions ?st1 = save_position ?c' (questions st)" by (simp add: log_action_def)
    have d1: "distinct (map pk (questions ?st1))"
      using Cons.prems(2) by (simp only: cats1 map_pk_save_position)
    have sub1: "set cs \<subseteq> set (questions ?st1)"
    proof
      fix x assume x: "x \<in> set cs"
      then have "pk x \<in> pk ` set cs" by (rule imageI)
      with notin have "pk x \<noteq> pk ?c'" by auto
      with sub x show "x \<in> set (questions ?st1)"
        unfolding cats1 by (intro save_position_other) auto
    qed
    note IH = Cons.IH [OF run d1 sub1 dcs]
    have step: "reindexed ids (pk ` set cs) (save_position ?c' (questions st))
        = reindexed ids (insert (pk c) (pk ` set cs)) (questions st)"
      by (rule reindexed_step [OF Cons.prems(2) cin notin]) (simp_all add: rp)
    from True rp have mv: "moved ids c" by (simp add: moved_def)
    from IH step mv rp mem show ?thesis
      by (simp add: cats1 log_action_def)
  next
    case False
    with Cons.prems(1) pos have run: "reorder_questions_loop rq (IdList ids) cs st = (Inr (), st')"
      by simp
    note IH = Cons.IH [OF run Cons.prems(2) sub dcs]
    from False rp have same: "position c = requested_position ids c" by simp
    then have mv: "\<not> moved ids c" by (simp add: moved_def)
    have "reindexed ids (pk ` set cs) (questions st)
        = reindexed ids (insert (pk c) (pk ` set cs)) (questions st)"
      by (rule reindexed_skip [OF Cons.prems(2) cin same])
    with IH mv mem show ?thesis by simp
  qed
qed

lemma reorder_questions_loop_total:
  "\<forall>c\<in>set cs. py_str (pk c) \<in> set ids \<Longrightarrow> \<exists>st'. reorder_questions_loop rq (IdList ids) cs st = (Inr (), st')"
proof (induction cs arbitrary: st)
  case Nil
  then show ?case by simp
next
  case (Cons c cs)
  then obtain pos where "index_of ids (py_str (pk c)) = Some pos"
    using index_of_None [of ids "py_str (pk c)"] by auto
  with Cons show ?case by (simp add: Let_def)
qed


lemma length_digit_indices: "length (digit_indices ids) = length (filter isdigit ids)"
proof -
  have "set (digit_indices ids) = {i. i < length ids \<and> isdigit (ids ! i)}"
    by (auto simp: digit_indices_def)
  moreover have "distinct (digit_indices ids)" by (simp add: digit_indices_def)
  ultimately have "length (digit_indices ids) = card {i. i < length ids \<and> isdigit (ids ! i)}"
    using distinct_card [of "digit_indices ids"] by simp
  then show ?thesis by (simp add: length_filter_conv_card)
qed

lemma digit_indices_all:
  "\<forall>s\<in>set ids. isdigit s \<Longrightarrow> digit_indices ids = [0..<length ids]"
  by (simp add: digit_indices_def)

lemma requested_positions:
  assumes d: "distinct (map pk tab)"
    and all: "\<forall>r\<in>set tab. py_str (pk r) \<in> set ids"
    and len: "length (filter isdigit ids) = length tab"
  shows "mset (map (requested_position ids) tab) = mset (map int (digit_indices ids))"
proof -
  define f where "f r = the (index_of ids (py_str (pk r)))" for r :: "'a orderable_scheme"
  have idx: "index_of ids (py_str (pk r)) = Some (f r)" if "r \<in> set tab" for r
    using that all index_of_None [of ids "py_str (pk r)"] by (auto simp: f_def)
  have rp: "requested_position ids r = int (f r)" if "r \<in> set tab" for r
    using idx [OF that] by (simp add: requested_position_def)
  have inj: "inj_on f (set tab)"
  proof (rule inj_onI)
    fix x y assume x: "x \<in> set tab" and y: "y \<in> set tab" and e: "f x = f y"
    from idx [OF x] idx [OF y] e have "py_str (pk x) = py_str (pk y)"
      using index_of_inj by metis
    then have "pk x = pk y" by (rule py_str_inj)
    with d x y show "x = y" by (rule same_pk_same_row)
  qed
  from d have dt: "distinct tab" by (simp add: distinct_map)
  have dist: "distinct (map f tab)" using dt inj by (simp add: distinct_map)
  have sub: "set (map f tab) \<subseteq> set (digit_indices ids)"
  proof
    fix i assume "i \<in> set (map f tab)"
    then obtain r where r: "r \<in> set tab" and i: "i = f r" by auto
    from index_of_Some [OF idx [OF r]] have "f r < length ids" "ids ! f r = py_str (pk r)"
      by simp_all
    with i show "i \<in> set (digit_indices ids)"
      by (simp add: digit_indices_def isdigit_py_str)
  qed
  have "card (set (map f tab)) = length tab" using dist distinct_card [of "map f tab"] by simp
  moreover have "card (set (digit_indices ids)) = length tab"
    using distinct_card [of "digit_indices ids"] len
    by (simp add: length_digit_indices) (simp add: digit_indices_def)
  ultimately have "set (map f tab) = set (digit_indices ids)"
    using sub by (intro card_subset_eq) simp_all
  moreover have "distinct (digit_indices ids)" by (simp add: digit_indices_def)
  ultimately have "mset (map f tab) = mset (digit_indices ids)"
    using dist set_eq_iff_mset_eq_distinct [of "map f tab" "digit_indices ids"] by blast
  then have "mset (map int (map f tab)) = mset (map int (digit_indices ids))"
    by (metis mset_map)
  moreover have "map (requested_position ids) tab = map int (map f tab)"
    using rp by simp
  ultimately show ?thesis by (simp only:)
qed

lemma reindexed_all: "reindexed ids (pk ` set tab) tab = map (\<lambda>r. r\<lparr>position := requested_position ids r\<rparr>) tab"
  by (simp add: reindexed_def)

lemma requested_position_update [simp]:
  "requested_position ids (r\<lparr>position := p\<rparr>) = (case index_of ids (py_str (pk r)) of Some i \<Rightarrow> int i | None \<Rightarrow> p)"
  by (simp add: requested_position_def split: option.split)

lemma reorder_categories_success:
  assumes "reorder_categories rq st = (Inr HttpResponse, st')" and "submitted rq ids"
  shows "post_allowed rq"
    and "id_query_error st (filter isdigit ids) = None"
    and "length (selected_rows (categories st) (filter isdigit ids)) = length ids"
    and "length (selected_rows (categories st) (filter isdigit ids)) = length (categories st)"
    and "reorder_categories_loop rq (IdList ids) (selected_rows (categories st) (filter isdigit ids)) st = (Inr (), st')"
  using assms
  by (auto simp: reorder_categories_def reorder_categories_body_def atomic_def post_allowed_def
      event_permission_required_def require_http_methods_def Let_def submitted_def
      filter_id_in_eq
      split: if_splits prod.splits sum.splits option.splits)

lemma map_pk_save_position_category [simp]: "map pk (save_position_category obj tab) = map pk tab"
  by (simp add: save_position_category_def)

lemma save_position_category_other:
  "x \<in> set tab \<Longrightarrow> pk x \<noteq> pk obj \<Longrightarrow> x \<in> set (save_position_category obj tab)"
  by (force simp: save_position_category_def)

lemma reassigned_step:
  assumes d: "distinct (map pk tab)" and c: "c \<in> set tab" and n: "pk c \<notin> S"
    and c': "c' = c\<lparr>position := requested_position ids c, category := target\<rparr>"
  shows "reassigned ids target S (save_position_category c' tab) = reassigned ids target (insert (pk c) S) tab"
  unfolding reassigned_def save_position_category_def map_map
proof (rule map_cong [OF refl])
  fix r assume r: "r \<in> set tab"
  have pkc: "pk c' = pk c" by (subst c') simp
  show "((\<lambda>r. if pk r \<in> S then r\<lparr>position := requested_position ids r, category := target\<rparr> else r) \<circ>
          (\<lambda>r. if pk r = pk c' then r\<lparr>position := position c', category := category c'\<rparr> else r)) r
      = (if pk r \<in> insert (pk c) S then r\<lparr>position := requested_position ids r, category := target\<rparr> else r)"
  proof (cases "pk r = pk c")
    case True
    with d r c have "r = c" by (rule same_pk_same_row)
    with n pkc show ?thesis by (simp add: c')
  next
    case False
    with pkc show ?thesis by simp
  qed
qed

lemma reassigned_skip:
  assumes d: "distinct (map pk tab)" and c: "c \<in> set tab"
    and p: "position c = requested_position ids c" and t: "category c = target"
  shows "reassigned ids target S tab = reassigned ids target (insert (pk c) S) tab"
  unfolding reassigned_def
proof (rule map_cong [OF refl])
  fix r assume r: "r \<in> set tab"
  show "(if pk r \<in> S then r\<lparr>position := requested_position ids r, category := target\<rparr> else r)
      = (if pk r \<in> insert (pk c) S then r\<lparr>position := requested_position ids r, category := target\<rparr> else r)"
  proof (cases "pk r = pk c")
    case True
    with d r c have "r = c" by (rule same_pk_same_row)
    with p t show ?thesis by simp
  next
    case False
    then show ?thesis by simp
  qed
qed

lemma reorder_items_loop_result:
  assumes "reorder_items_loop rq (IdList ids) tc cs st = (Inr (), st')"
    and "distinct (map pk (items st))" and "set cs \<subseteq> set (items st)"
    and "distinct (map pk cs)"
  shows "items st' = reassigned ids (map_option pk tc) (pk ` set cs) (items st)
       \<and> log_entries st' = log_entries st @
           map (\<lambda>i. LogEntry (ItemObj (pk i)) ''pretix.event.item.reordered'' (user rq)
                  [(''position'', PyItem (i\<lparr>position := requested_position ids i,
                                              category := map_option pk tc\<rparr>)),
                   (''category'', (case tc of None \<Rightarrow> PyNone | Some c \<Rightarrow> PyInt (int (pk c))))])
             (filter (item_moved ids (map_option pk tc)) cs)
       \<and> writes st' = writes st @
           map (\<lambda>i. SaveRow (ItemObj (pk i)) (Some [''position'', ''category_id'']))
             (filter (item_moved ids (map_option pk tc)) cs)
       \<and> categories st' = categories st \<and> questions st' = questions st \<and> settings st' = settings st
       \<and> (\<forall>c\<in>set cs. py_str (pk c) \<in> set ids)"
  using assms
proof (induction cs arbitrary: st)
  case Nil
  then show ?case by (simp add: reassigned_def)
next
  case (Cons c cs)
  from Cons.prems(1) obtain pos where pos: "index_of ids (py_str (pk c)) = Some pos"
    by (cases "index_of ids (py_str (pk c))") auto
  then have rp: "requested_position ids c = int pos" by (simp add: requested_position_def)
  from pos have mem: "py_str (pk c) \<in> set ids" using index_of_None [of ids "py_str (pk c)"] by simp
  from Cons.prems(3) have cin: "c \<in> set (items st)" and sub: "set cs \<subseteq> set (items st)"
    by simp_all
  from Cons.prems(4) have notin: "pk c \<notin> pk ` set cs" and dcs: "distinct (map pk cs)" by simp_all
  show ?case
  proof (cases "int pos \<noteq> position c \<or> map_option pk tc \<noteq> category c")
    case True
    let ?c' = "c\<lparr>position := int pos, category := map_option pk tc\<rparr>"
    let ?st1 = "log_action (ItemObj (pk c)) ''pretix.event.item.reordered'' (user rq)
                  [(''position'', PyItem ?c'),
                   (''category'', (case tc of None \<Rightarrow> PyNone | Some c \<Rightarrow> PyInt (int (pk c))))]
                  (st\<lparr>items := save_position_category ?c' (items st),
                      writes := writes st @ [SaveRow (ItemObj (pk c)) (Some [''position'', ''category_id''])]\<rparr>)"
    from Cons.prems(1) pos True have run: "reorder_items_loop rq (IdList ids) tc cs ?st1 = (Inr (), st')"
      by (simp add: Let_def)
    have tab1: "items ?st1 = save_position_category ?c' (items st)" by (simp add: log_action_def)
    have d1: "distinct (map pk (items ?st1))"
      using Cons.prems(2) by (simp only: tab1 map_pk_save_position_category)
    have sub1: "set cs \<subseteq> set (items ?st1)"
    proof
      fix x assume x: "x \<in> set cs"
      then have "pk x \<in> pk ` set cs" by (rule imageI)
      with notin have "pk x \<noteq> pk ?c'" by auto
      with sub x show "x \<in> set (items ?st1)"
        unfolding tab1 by (intro save_position_category_other) auto
    qed
    note IH = Cons.IH [OF run d1 sub1 dcs]
    have step: "reassigned ids (map_option pk tc) (pk ` set cs) (save_position_category ?c' (items st))
        = reassigned ids (map_option pk tc) (insert (pk c) (pk ` set cs)) (items st)"
      by (rule reassigned_step [OF Cons.prems(2) cin notin]) (simp add: rp)
    from True rp have mv: "item_moved ids (map_option pk tc) c" by (auto simp: item_moved_def)
    from IH step mv rp mem show ?thesis
      by (simp add: tab1 log_action_def)
  next
    case False
    with Cons.prems(1) pos have run: "reorder_items_loop rq (IdList ids) tc cs st = (Inr (), st')"
      by simp
    note IH = Cons.IH [OF run Cons.prems(2) sub dcs]
    from False rp have same: "position c = requested_position ids c" "category c = map_option pk tc" by simp_all
    then have mv: "\<not> item_moved ids (map_option pk tc) c" by (simp add: item_moved_def)
    have "reassigned ids (map_option pk tc) (pk ` set cs) (items st)
        = reassigned ids (map_option pk tc) (insert (pk c) (pk ` set cs)) (items st)"
      by (rule reassigned_skip [OF Cons.prems(2) cin same])
    with IH mv mem show ?thesis by simp
  qed
qed

section \<open>Effect of a successful reorder request\<close>

lemma reorder_categories_effect:
  assumes ok: "reorder_categories rq st = (Inr HttpResponse, st')"
    and b: "submitted rq ids" and d: "distinct (map pk (categories st))"
  shows "categories st' = map (\<lambda>r. r\<lparr>position := requested_position ids r\<rparr>) (categories st)
       \<and> log_entries st' = log_entries st @
           map (\<lambda>c. LogEntry (CategoryObj (pk c)) ''pretix.event.category.reordered'' (user rq)
                      [(''position'', PyInt (requested_position ids c))])
             (filter (moved ids) (categories st))
       \<and> writes st' = writes st @
           map (\<lambda>c. SaveRow (CategoryObj (pk c)) (Some [''position'']))
             (filter (moved ids) (categories st))
       \<and> items st' = items st \<and> questions st' = questions st \<and> settings st' = settings st
       \<and> (\<forall>c\<in>set (categories st). py_str (pk c) \<in> set ids)
       \<and> length ids = length (categories st) \<and> (\<forall>s\<in>set ids. isdigit s)"
proof -
  note s = reorder_categories_success [OF ok b]
  note l1 = s(3) and l2 = s(4) and run = s(5)
  from l2 have inp: "selected_rows (categories st) (filter isdigit ids) = categories st"
    by (simp add: selected_rows_all)
  from run inp have run': "reorder_categories_loop rq (IdList ids) (categories st) st = (Inr (), st')" by simp
  from l1 d have dig: "\<forall>s\<in>set ids. isdigit s" by (simp add: all_digits_iff)
  from l1 l2 have len: "length ids = length (categories st)" by simp
  from reorder_categories_loop_result [OF run' d subset_refl d] dig len
  show ?thesis by (simp add: reindexed_all)
qed

lemma index_of_requested:
  "py_str (pk r) \<in> set ids \<Longrightarrow>
   map_option int (index_of ids (py_str (pk r))) = Some (requested_position ids r)"
  using index_of_None [of ids "py_str (pk r)"]
  by (cases "index_of ids (py_str (pk r))") (auto simp: requested_position_def)

lemma strict_positions_categories:
  assumes d: "distinct (map pk (categories st))" and b: "submitted rq ids"
    and ok: "reorder_categories rq st = (Inr HttpResponse, st')"
  shows "map pk (categories st') = map pk (categories st)
       \<and> (\<forall>r\<in>set (categories st'). map_option int (index_of ids (py_str (pk r))) = Some (position r))
       \<and> mset (map position (categories st')) = mset (map int [0..<length (categories st')])"
proof -
  note eff = reorder_categories_effect [OF ok b d]
  from eff have tab: "categories st' = map (\<lambda>r. r\<lparr>position := requested_position ids r\<rparr>) (categories st)"
    and mem: "\<forall>c\<in>set (categories st). py_str (pk c) \<in> set ids"
    and len: "length ids = length (categories st)" and dig: "\<forall>s\<in>set ids. isdigit s"
    by simp_all
  have pks: "map pk (categories st') = map pk (categories st)" by (simp add: tab comp_def)
  have idx: "\<forall>r\<in>set (categories st'). map_option int (index_of ids (py_str (pk r))) = Some (position r)"
  proof
    fix r assume "r \<in> set (categories st')"
    then obtain c where c: "c \<in> set (categories st)" and r: "r = c\<lparr>position := requested_position ids c\<rparr>"
      unfolding tab by auto
    from mem c have "py_str (pk c) \<in> set ids" by simp
    from index_of_requested [OF this] r
    show "map_option int (index_of ids (py_str (pk r))) = Some (position r)" by simp
  qed
  from dig have "filter isdigit ids = ids" by simp
  with len have "length (filter isdigit ids) = length (categories st)" by simp
  from requested_positions [OF d mem this] dig len
  have "mset (map (requested_position ids) (categories st)) = mset (map int [0..<length (categories st)])"
    by (simp add: digit_indices_all)
  moreover have "map position (categories st') = map (requested_position ids) (categories st)"
    by (simp add: tab comp_def)
  moreover have "length (categories st') = length (categories st)" by (simp add: tab)
  ultimately have "mset (map position (categories st')) = mset (map int [0..<length (categories st')])"
    by (simp only:)
  with pks idx show ?thesis by simp
qed

lemma system_question_order_loop_fold:
  "system_question_order_loop (IdList ids) ss d
     = Inr (fold (\<lambda>s. AList.update s (system_index ids s)) ss d)"
proof (induction ss arbitrary: d)
  case Nil
  then show ?case by simp
next
  case (Cons s ss)
  show ?case
  proof (cases "index_of ids s")
    case None
    then have "s \<notin> set ids" by (simp add: index_of_None)
    with None Cons show ?thesis by (simp add: system_index_def)
  next
    case (Some i)
    then have "s \<in> set ids" using index_of_None [of ids s] by auto
    with Some Cons show ?thesis by (simp add: system_index_def)
  qed
qed

lemma update_fresh: "k \<notin> fst ` set d \<Longrightarrow> AList.update k v d = d @ [(k, v)]"
  by (induction d) auto

lemma fold_update_fresh:
  "distinct ss \<Longrightarrow> set ss \<inter> fst ` set d = {} \<Longrightarrow>
   fold (\<lambda>s. AList.update s (g s)) ss d = d @ map (\<lambda>s. (s, g s)) ss"
proof (induction ss arbitrary: d)
  case Nil
  then show ?case by simp
next
  case (Cons s ss)
  from Cons.prems have fresh: "s \<notin> fst ` set d" by auto
  have "set ss \<inter> fst ` set (d @ [(s, g s)]) = {}" using Cons.prems by auto
  with Cons.IH [of "d @ [(s, g s)]"] Cons.prems(1) fresh show ?case
    by (simp add: update_fresh)
qed

lemma distinct_system_keys: "distinct system_keys"
  by (simp add: system_keys_def)

lemma system_question_order_loop_keys:
  "system_question_order_loop (IdList ids) system_keys []
     = Inr (map (\<lambda>s. (s, system_index ids s)) system_keys)"
  by (simp add: system_question_order_loop_fold fold_update_fresh [OF distinct_system_keys])

lemma reorder_questions_success:
  assumes "reorder_questions rq st = (Inr HttpResponse, st')" and "submitted rq ids"
  obtains st1 where "post_allowed rq"
    "id_query_error st (filter isdigit ids) = None"
    "length (selected_rows (questions st) (filter isdigit ids)) = length (filter isdigit ids)"
    "length (selected_rows (questions st) (filter isdigit ids)) = length (questions st)"
    "reorder_questions_loop rq (IdList ids) (selected_rows (questions st) (filter isdigit ids)) st = (Inr (), st1)"
    "st' = log_action EventObj ''pretix.event.settings'' (user rq)
             [(''system_question_order'', PyDict (map (\<lambda>s. (s, system_index ids s)) system_keys))]
             (st1\<lparr>settings := (settings st1)\<lparr>system_question_order :=
                       map (\<lambda>s. (s, system_index ids s)) system_keys\<rparr>,
                  writes := writes st1 @ [SetSetting ''system_question_order'']\<rparr>)"
  using assms
  by (auto simp: reorder_questions_def reorder_questions_body_def atomic_def post_allowed_def
      event_permission_required_def require_http_methods_def Let_def submitted_def
      filter_id_in_eq system_question_order_loop_keys
      split: if_splits prod.splits sum.splits option.splits)

lemma reorder_questions_effect:
  assumes ok: "reorder_questions rq st = (Inr HttpResponse, st')"
    and b: "submitted rq ids" and d: "distinct (map pk (questions st))"
  shows "questions st' = map (\<lambda>r. r\<lparr>position := requested_position ids r\<rparr>) (questions st)
       \<and> log_entries st' = log_entries st @
           map (\<lambda>c. LogEntry (QuestionObj (pk c)) ''pretix.event.question.reordered'' (user rq)
                      [(''position'', PyInt (requested_position ids c))])
             (filter (moved ids) (questions st))
           @ [LogEntry EventObj ''pretix.event.settings'' (user rq)
                [(''system_question_order'', PyDict (map (\<lambda>s. (s, system_index ids s)) system_keys))]]
       \<and> writes st' = writes st @
           map (\<lambda>c. SaveRow (QuestionObj (pk c)) (Some [''position'']))
             (filter (moved ids) (questions st))
           @ [SetSetting ''system_question_order'']
       \<and> items st' = items st \<and> categories st' = categories st
       \<and> settings st' = (settings st)\<lparr>system_question_order :=
                             map (\<lambda>s. (s, system_index ids s)) system_keys\<rparr>
       \<and> (\<forall>c\<in>set (questions st). py_str (pk c) \<in> set ids)
       \<and> length (filter isdigit ids) = length (questions st)"
proof -
  from ok b obtain st1
    where l1: "length (selected_rows (questions st) (filter isdigit ids)) = length (filter isdigit ids)"
    and l2: "length (selected_rows (questions st) (filter isdigit ids)) = length (questions st)"
    and run: "reorder_questions_loop rq (IdList ids) (selected_rows (questions st) (filter isdigit ids)) st = (Inr (), st1)"
    and st': "st' = log_action EventObj ''pretix.event.settings'' (user rq)
             [(''system_question_order'', PyDict (map (\<lambda>s. (s, system_index ids s)) system_keys))]
             (st1\<lparr>settings := (settings st1)\<lparr>system_question_order :=
                       map (\<lambda>s. (s, system_index ids s)) system_keys\<rparr>,
                  writes := writes st1 @ [SetSetting ''system_question_order'']\<rparr>)"
    by (rule reorder_questions_success)
  from l2 have inp: "selected_rows (questions st) (filter isdigit ids) = questions st"
    by (simp add: selected_rows_all)
  from run inp have run': "reorder_questions_loop rq (IdList ids) (questions st) st = (Inr (), st1)" by simp
  from l1 l2 have len: "length (filter isdigit ids) = length (questions st)" by simp
  from reorder_questions_loop_result [OF run' d subset_refl d] len st'
  show ?thesis by (simp add: reindexed_all log_action_def)
qed

lemma strict_positions_questions:
  assumes d: "distinct (map pk (questions st))" and b: "submitted rq ids"
    and ok: "reorder_questions rq st = (Inr HttpResponse, st')"
  shows "map pk (questions st') = map pk (questions st)
       \<and> (\<forall>r\<in>set (questions st'). map_option int (index_of ids (py_str (pk r))) = Some (position r))
       \<and> mset (map position (questions st')) = mset (map int (digit_indices ids))
       \<and> (list_all isdigit ids \<longrightarrow>
            mset (map position (questions st')) = mset (map int [0..<length (questions st')]))"
proof -
  note eff = reorder_questions_effect [OF ok b d]
  from eff have tab: "questions st' = map (\<lambda>r. r\<lparr>position := requested_position ids r\<rparr>) (questions st)"
    and mem: "\<forall>c\<in>set (questions st). py_str (pk c) \<in> set ids"
    and len: "length (filter isdigit ids) = length (questions st)"
    by simp_all
  have pks: "map pk (questions st') = map pk (questions st)" by (simp add: tab comp_def)
  have idx: "\<forall>r\<in>set (questions st'). map_option int (index_of ids (py_str (pk r))) = Some (position r)"
  proof
    fix r assume "r \<in> set (questions st')"
    then obtain c where c: "c \<in> set (questions st)" and r: "r = c\<lparr>position := requested_position ids c\<rparr>"
      unfolding tab by auto
    from mem c have "py_str (pk c) \<in> set ids" by simp
    from index_of_requested [OF this] r
    show "map_option int (index_of ids (py_str (pk r))) = Some (position r)" by simp
  qed
  have "map position (questions st') = map (requested_position ids) (questions st)"
    by (simp add: tab comp_def)
  with requested_positions [OF d mem len]
  have ms: "mset (map position (questions st')) = mset (map int (digit_indices ids))"
    by (simp only:)
  have "mset (map position (questions st')) = mset (map int [0..<length (questions st')])"
    if "list_all isdigit ids"
  proof -
    from that have all: "\<forall>s\<in>set ids. isdigit s" by (simp add: list_all_iff)
    then have "filter isdigit ids = ids" by simp
    with len have "length ids = length (questions st')" by (simp add: tab)
    with ms all show ?thesis by (simp add: digit_indices_all)
  qed
  with pks idx ms show ?thesis by blast
qed

lemma get_by_id_Some: "get_by_id tab k = Some c \<Longrightarrow> pk c = k \<and> c \<in> set tab"
  by (auto simp: get_by_id_def find_Some_iff)

lemma get_by_id_None: "get_by_id tab k = None \<longleftrightarrow> k \<notin> pk ` set tab"
  by (auto simp: get_by_id_def find_None_iff)

lemma distinct_selected_rows: "distinct (map pk tab) \<Longrightarrow> distinct (map pk (selected_rows tab vals))"
  by (simp add: selected_rows_def distinct_map_filter)

lemma set_selected_rows: "set (selected_rows tab vals) \<subseteq> set tab"
  by (auto simp: selected_rows_def)

lemma pk_selected_rows: "pk ` set (selected_rows tab vals) = pk ` set tab \<inter> decimal_value ` set vals"
  by (auto simp: selected_rows_def)

lemma gates_success:
  assumes "atomic (event_permission_required rq (require_http_methods [''POST''] rq f)) st
           = (Inr HttpResponse, st')"
  shows "post_allowed rq \<and> f st = (Inr HttpResponse, st')"
  using assms
  by (auto simp: atomic_def post_allowed_def event_permission_required_def
      require_http_methods_def split: if_splits prod.splits sum.splits)

lemma reorder_items_success:
  assumes "reorder_items rq cid st = (Inr HttpResponse, st')" and sb: "submitted rq ids"
  obtains tc where "post_allowed rq"
    "id_query_error st (filter isdigit ids) = None"
    "length (selected_rows (items st) (filter isdigit ids)) = length ids"
    "map_option pk tc = (if cid = 0 then None else Some cid)"
    "cid \<noteq> 0 \<longrightarrow> cid \<in> pk ` set (categories st)"
    "reorder_items_loop rq (IdList ids) tc (selected_rows (items st) (filter isdigit ids)) st = (Inr (), st')"
proof -
  from assms have pa: "post_allowed rq" and inner: "reorder_items_body rq cid st = (Inr HttpResponse, st')"
    using gates_success [of rq "reorder_items_body rq cid" st st'] by (simp_all add: reorder_items_def)
  from sb have b: "load_ids (body rq) = Loaded (JArray (map JString ids))" by (simp add: submitted_def)
  let ?inp = "selected_rows (items st) (filter isdigit ids)"
  from inner b have q: "id_query_error st (filter isdigit ids) = None"
    by (auto simp: reorder_items_body_def filter_id_in_eq split: option.splits)
  from inner b q have l1: "length ?inp = length ids"
    by (auto simp: reorder_items_body_def filter_id_in_eq Let_def split: if_splits)
  show thesis
  proof (cases "cid = 0")
    case True
    with inner b q l1 have "reorder_items_loop rq (IdList ids) None ?inp st = (Inr (), st')"
      by (auto simp: reorder_items_body_def filter_id_in_eq Let_def split: prod.splits sum.splits)
    with True pa q l1 show thesis by (intro that [of None]) simp_all
  next
    case False
    with inner b q l1 obtain c where c: "get_by_id (categories st) cid = Some c"
      by (cases "get_by_id (categories st) cid") (auto simp: reorder_items_body_def filter_id_in_eq Let_def)
    with inner b q l1 False have "reorder_items_loop rq (IdList ids) (Some c) ?inp st = (Inr (), st')"
      by (auto simp: reorder_items_body_def filter_id_in_eq Let_def split: prod.splits sum.splits)
    moreover from get_by_id_Some [OF c] have "pk c = cid" "cid \<in> pk ` set (categories st)" by auto
    ultimately show thesis using False pa q l1 by (intro that [of "Some c"]) simp_all
  qed
qed

lemma reorder_items_effect:
  assumes ok: "reorder_items rq cid st = (Inr HttpResponse, st')"
    and b: "submitted rq ids" and d: "distinct (map pk (items st))"
    and t: "target = (if cid = 0 then None else Some cid)"
  shows "items st' = reassigned ids target (decimal_value ` set ids) (items st)
       \<and> log_entries st' = log_entries st @
           map (\<lambda>i. LogEntry (ItemObj (pk i)) ''pretix.event.item.reordered'' (user rq)
                  [(''position'', PyItem (i\<lparr>position := requested_position ids i, category := target\<rparr>)),
                   (''category'', (case target of None \<Rightarrow> PyNone | Some c \<Rightarrow> PyInt (int c)))])
             (filter (item_moved ids target) (selected_rows (items st) ids))
       \<and> writes st' = writes st @
           map (\<lambda>i. SaveRow (ItemObj (pk i)) (Some [''position'', ''category_id'']))
             (filter (item_moved ids target) (selected_rows (items st) ids))
       \<and> categories st' = categories st \<and> questions st' = questions st \<and> settings st' = settings st
       \<and> (\<forall>s\<in>set ids. isdigit s \<and> decimal_value s \<in> pk ` set (items st) \<and> s = py_str (decimal_value s))
       \<and> distinct ids"
proof -
  from ok b obtain tc
    where l1: "length (selected_rows (items st) (filter isdigit ids)) = length ids"
    and tc: "map_option pk tc = (if cid = 0 then None else Some cid)"
    and run: "reorder_items_loop rq (IdList ids) tc (selected_rows (items st) (filter isdigit ids)) st = (Inr (), st')"
    by (rule reorder_items_success)
  from l1 d have val: "\<forall>s\<in>set ids. isdigit s \<and> decimal_value s \<in> pk ` set (items st)"
    and dis: "distinct (map decimal_value ids)" by (simp_all add: all_digits_iff)
  then have fi: "filter isdigit ids = ids" by simp
  let ?inp = "selected_rows (items st) ids"
  from run fi have run': "reorder_items_loop rq (IdList ids) tc ?inp st = (Inr (), st')" by simp
  note res = reorder_items_loop_result [OF run' d set_selected_rows distinct_selected_rows [OF d]]
  from tc t have tt: "map_option pk tc = target" by simp
  have tv: "(case tc of None \<Rightarrow> PyNone | Some c \<Rightarrow> PyInt (int (pk c)))
          = (case target of None \<Rightarrow> PyNone | Some c \<Rightarrow> PyInt (int c))"
    using tt by (cases tc) auto
  have "reassigned ids target (pk ` set ?inp) (items st) = reassigned ids target (decimal_value ` set ids) (items st)"
    unfolding reassigned_def pk_selected_rows by (rule map_cong [OF refl]) auto
  moreover have canon: "\<forall>s\<in>set ids. s = py_str (decimal_value s)"
  proof
    fix s assume s: "s \<in> set ids"
    with val obtain r where r: "r \<in> set (items st)" and pr: "pk r = decimal_value s" by auto
    with s have rin: "r \<in> set ?inp" by (auto simp: selected_rows_def)
    with res have "py_str (pk r) \<in> set ids" by simp
    then obtain s' where s': "s' \<in> set ids" and e: "s' = py_str (pk r)" by simp
    then have "decimal_value s' = decimal_value s" by (simp add: pr decimal_value_py_str)
    with dis s s' have "s' = s" by (meson distinct_map inj_onD)
    with e pr show "s = py_str (decimal_value s)" by simp
  qed
  moreover from dis have "distinct ids" by (simp add: distinct_map)
  ultimately show ?thesis using res val tt tv by simp
qed

section \<open>Accepted requests\<close>

lemma within_mono: "within b n \<Longrightarrow> m \<le> n \<Longrightarrow> within b m"
  by (cases b) (simp_all add: within_def)

lemma permutation_queryable:
  assumes m: "mset D = mset (map (\<lambda>r. py_str (pk r)) tab)" and q: "queryable st tab"
  shows "id_query_error st D = None"
proof -
  from m have sD: "set D = (\<lambda>r. py_str (pk r)) ` set tab" by (metis set_mset_mset set_map)
  from m have len: "length D = length tab" by (metis length_map size_mset)
  from q have rows: "\<forall>r\<in>set tab. within (int_max_str_digits st) (length (py_str (pk r)))
      \<and> within (db_max_integer st) (pk r)"
    and cnt: "within (db_max_parameters st) (length tab)"
    by (simp_all add: queryable_def list_all_iff)
  have conv: "\<forall>v\<in>set D. py_int (int_max_str_digits st) v \<noteq> None"
    using sD rows by (auto simp: py_int_py_str)
  have rng: "\<forall>v\<in>set D. within (db_max_integer st) (decimal_value v)"
    using sD rows by (auto simp: decimal_value_py_str)
  have "length (remdups (map decimal_value D)) \<le> length tab"
    using length_remdups_leq [of "map decimal_value D"] len by simp
  with cnt have par: "within (db_max_parameters st) (length (remdups (map decimal_value D)))"
    by (rule within_mono)
  from conv rng par show ?thesis
    by (simp add: id_query_error_def list_all_iff)
qed

lemma permutation_resolves:
  assumes d: "distinct (map pk tab)" and m: "mset D = mset (map (\<lambda>r. py_str (pk r)) tab)"
  shows "length (selected_rows tab D) = length D \<and> length (selected_rows tab D) = length tab
       \<and> (\<forall>s\<in>set D. isdigit s) \<and> (\<forall>r\<in>set tab. py_str (pk r) \<in> set D)"
proof -
  from m have sD: "set D = (\<lambda>r. py_str (pk r)) ` set tab" by (metis set_mset_mset set_map)
  then have dig: "\<forall>s\<in>set D. isdigit s" by (auto simp: isdigit_py_str)
  from sD have res: "\<forall>s\<in>set D. decimal_value s \<in> pk ` set tab" by (auto simp: decimal_value_py_str)
  from m have "mset (map decimal_value D) = mset (map decimal_value (map (\<lambda>r. py_str (pk r)) tab))"
    by (metis mset_map)
  then have "mset (map decimal_value D) = mset (map pk tab)" by (simp add: comp_def decimal_value_py_str)
  with d have dis: "distinct (map decimal_value D)" by (metis mset_eq_imp_distinct_iff)
  from res dis have l1: "length (selected_rows tab D) = length D" by (simp add: resolved_iff [OF d])
  from sD have "pk ` set tab \<subseteq> decimal_value ` set D" by (force simp: decimal_value_py_str)
  then have l2: "length (selected_rows tab D) = length tab" by (simp add: all_selected_iff [OF d])
  from sD have "\<forall>r\<in>set tab. py_str (pk r) \<in> set D" by auto
  with l1 l2 dig show ?thesis by simp
qed

lemma reorder_categories_accepts:
  assumes pa: "post_allowed rq" and b: "submitted rq ids" and d: "distinct (map pk (categories st))"
    and q: "queryable st (categories st)"
    and m: "mset ids = mset (map (\<lambda>c. py_str (pk c)) (categories st))"
  shows "fst (reorder_categories rq st) = Inr HttpResponse"
proof -
  from permutation_resolves [OF d m]
  have l1: "length (selected_rows (categories st) ids) = length ids"
    and l2: "length (selected_rows (categories st) ids) = length (categories st)"
    and dig: "\<forall>s\<in>set ids. isdigit s" and mem: "\<forall>r\<in>set (categories st). py_str (pk r) \<in> set ids"
    by simp_all
  from dig have f: "filter isdigit ids = ids" by simp
  from permutation_queryable [OF m q] have qe: "id_query_error st ids = None" .
  from l2 have inp: "selected_rows (categories st) ids = categories st" by (rule selected_rows_all)
  from reorder_categories_loop_total [OF mem, of rq st]
  obtain st' where "reorder_categories_loop rq (IdList ids) (categories st) st = (Inr (), st')" by blast
  with pa b l1 l2 f inp qe show ?thesis
    by (simp add: reorder_categories_def reorder_categories_body_def atomic_def post_allowed_def
        event_permission_required_def require_http_methods_def Let_def submitted_def
        filter_id_in_eq)
qed

lemma reorder_questions_accepts:
  assumes pa: "post_allowed rq" and b: "submitted rq ids" and d: "distinct (map pk (questions st))"
    and q: "queryable st (questions st)"
    and m: "mset (filter isdigit ids) = mset (map (\<lambda>c. py_str (pk c)) (questions st))"
  shows "fst (reorder_questions rq st) = Inr HttpResponse"
proof -
  from permutation_resolves [OF d m]
  have l1: "length (selected_rows (questions st) (filter isdigit ids)) = length (filter isdigit ids)"
    and l2: "length (selected_rows (questions st) (filter isdigit ids)) = length (questions st)"
    and mem: "\<forall>r\<in>set (questions st). py_str (pk r) \<in> set (filter isdigit ids)"
    by simp_all
  from mem have mem': "\<forall>r\<in>set (questions st). py_str (pk r) \<in> set ids" by simp
  from permutation_queryable [OF m q] have qe: "id_query_error st (filter isdigit ids) = None" .
  from l2 have inp: "selected_rows (questions st) (filter isdigit ids) = questions st"
    by (rule selected_rows_all)
  from reorder_questions_loop_total [OF mem', of rq st]
  obtain st' where "reorder_questions_loop rq (IdList ids) (questions st) st = (Inr (), st')" by blast
  with pa b l1 l2 inp qe show ?thesis
    by (simp add: reorder_questions_def reorder_questions_body_def atomic_def post_allowed_def
        event_permission_required_def require_http_methods_def Let_def submitted_def
        filter_id_in_eq system_question_order_loop_keys)
qed

section \<open>Strict reconciliation\<close>

lemma reorder_categories_cab:
  "reorder_categories (post (ids_body [''3'', ''1'', ''2''])) three_categories
     = (Inr HttpResponse, three_categories_cab)"
  by code_simp

lemma reorder_questions_email_17_name:
  "reorder_questions (post (ids_body email_17_name)) one_question
     = (Inr HttpResponse, one_question_reordered)"
  by code_simp

text \<open>
  C1, as stated, fails for questions: the position of a question is its index in the
  whole submitted list, which also holds system keys. In the event that asks for
  attendee names and has the single question 17, the request \<^verbatim>\<open>company, 17\<close> succeeds
  and leaves the question at position 1, so the positions of the one question are not
  \<open>{0}\<close>; the displayed list then has the positions -1 and 1.
\<close>

theorem strict_positions_counterexample:
  "fst (reorder_questions (post (ids_body [''company'', ''17''])) asks_names) = Inr HttpResponse
 \<and> map position (questions (snd (reorder_questions (post (ids_body [''company'', ''17''])) asks_names))) = [1]
 \<and> mset (map position (questions (snd (reorder_questions (post (ids_body [''company'', ''17''])) asks_names))))
     \<noteq> mset (map int [0..<length (questions (snd (reorder_questions (post (ids_body [''company'', ''17''])) asks_names)))])
 \<and> map q_position (get_context_data (snd (reorder_questions (post (ids_body [''company'', ''17''])) asks_names)))
     = [- 1, 1]"
  by code_simp

text \<open>
  C1, amended. A permitted \<^verbatim>\<open>reorder_categories\<close> request whose list is a permutation
  of the keys of all categories, written as \<^verbatim>\<open>str\<close> writes them, succeeds when the
  installation can query the keys of the table; and after a successful request the
  categories are the same rows, the position of each is the index of its key in the
  submitted list, and the positions are exactly 0, ..., n-1. A permitted
  \<^verbatim>\<open>reorder_questions\<close> request whose digit entries (the entries that pass
  \<^verbatim>\<open>str.isdigit\<close>) are such a permutation of the keys of all questions succeeds likewise,
  and after a successful request the position of each question is the index of its key
  in the submitted list, and the positions of the questions are exactly the indices at
  which the list holds digit entries (the other indices belong to system keys); they
  are 0, ..., n-1 when the list holds digit entries only.
\<close>

theorem strict_reorder_positions:
  "(distinct (map pk (categories st1)) \<and> submitted rq1 ids1 \<longrightarrow>
      (post_allowed rq1 \<and> queryable st1 (categories st1)
          \<and> mset ids1 = mset (map (\<lambda>c. py_str (pk c)) (categories st1))
        \<longrightarrow> fst (reorder_categories rq1 st1) = Inr HttpResponse)
    \<and> (reorder_categories rq1 st1 = (Inr HttpResponse, st1')
        \<longrightarrow> map pk (categories st1') = map pk (categories st1)
          \<and> (\<forall>r\<in>set (categories st1').
                map_option int (index_of ids1 (py_str (pk r))) = Some (position r))
          \<and> mset (map position (categories st1')) = mset (map int [0..<length (categories st1')])))
 \<and> (distinct (map pk (questions st2)) \<and> submitted rq2 ids2 \<longrightarrow>
      (post_allowed rq2 \<and> queryable st2 (questions st2)
          \<and> mset (filter isdigit ids2) = mset (map (\<lambda>q. py_str (pk q)) (questions st2))
        \<longrightarrow> fst (reorder_questions rq2 st2) = Inr HttpResponse)
    \<and> (reorder_questions rq2 st2 = (Inr HttpResponse, st2')
        \<longrightarrow> map pk (questions st2') = map pk (questions st2)
          \<and> (\<forall>r\<in>set (questions st2').
                map_option int (index_of ids2 (py_str (pk r))) = Some (position r))
          \<and> mset (map position (questions st2')) = mset (map int (digit_indices ids2))
          \<and> (list_all isdigit ids2 \<longrightarrow>
                mset (map position (questions st2')) = mset (map int [0..<length (questions st2')]))))"
  using strict_positions_categories [of st1 rq1 ids1 st1']
    strict_positions_questions [of st2 rq2 ids2 st2']
    reorder_categories_accepts [of rq1 ids1 st1] reorder_questions_accepts [of rq2 ids2 st2]
  by blast

theorem strict_reorder_positions_witness:
  "distinct (map pk (categories three_categories))
 \<and> submitted (post (ids_body [''3'', ''1'', ''2''])) (map ascii [''3'', ''1'', ''2''])
 \<and> post_allowed (post (ids_body [''3'', ''1'', ''2'']))
 \<and> queryable three_categories (categories three_categories)
 \<and> mset (map ascii [''3'', ''1'', ''2''])
     = mset (map (\<lambda>c. py_str (pk c)) (categories three_categories))
 \<and> reorder_categories (post (ids_body [''3'', ''1'', ''2''])) three_categories
     = (Inr HttpResponse, three_categories_cab)
 \<and> map position (categories three_categories_cab) = [1, 2, 0]
 \<and> mset (map position (categories three_categories_cab)) = mset (map int [0..<3])
 \<and> distinct (map pk (questions one_question))
 \<and> submitted (post (ids_body email_17_name)) (map ascii email_17_name)
 \<and> post_allowed (post (ids_body email_17_name))
 \<and> queryable one_question (questions one_question)
 \<and> mset (filter isdigit (map ascii email_17_name))
     = mset (map (\<lambda>q. py_str (pk q)) (questions one_question))
 \<and> reorder_questions (post (ids_body email_17_name)) one_question
     = (Inr HttpResponse, one_question_reordered)
 \<and> map position (questions one_question_reordered) = [1]
 \<and> mset (map position (questions one_question_reordered))
     = mset (map int (digit_indices (map ascii email_17_name)))"
proof -
  have c: "distinct (map pk (categories three_categories))"
    by (simp add: three_categories_def empty_event_def)
  have q: "distinct (map pk (questions one_question))"
    by (simp add: one_question_def empty_event_def)
  note bc = submitted_post [of "[''3'', ''1'', ''2'']"]
  note bq = submitted_post [of email_17_name]
  note pa = post_allowed_post [of "ids_body [''3'', ''1'', ''2'']"]
    post_allowed_post [of "ids_body email_17_name"]
  have qc: "queryable three_categories (categories three_categories)"
    and qq: "queryable one_question (questions one_question)"
    by code_simp+
  have keys: "map (\<lambda>c. py_str (pk c)) (categories three_categories) = map ascii [''1'', ''2'', ''3'']"
    "filter isdigit (map ascii email_17_name) = map ascii [''17'']"
    "map (\<lambda>q. py_str (pk q)) (questions one_question) = map ascii [''17'']"
    by code_simp+
  have mc: "mset (map ascii [''3'', ''1'', ''2''])
      = mset (map (\<lambda>c. py_str (pk c)) (categories three_categories))"
    unfolding keys by (simp add: add_mset_commute)
  have mq: "mset (filter isdigit (map ascii email_17_name))
      = mset (map (\<lambda>q. py_str (pk q)) (questions one_question))"
    unfolding keys by simp
  have pc: "map position (categories three_categories_cab) = [1, 2, 0]"
    by (simp add: three_categories_cab_def empty_event_def)
  have pq: "map position (questions one_question_reordered) = [1]"
    by (simp add: one_question_reordered_def empty_event_def)
  have lc: "length (categories three_categories_cab) = 3"
    by (simp add: three_categories_cab_def empty_event_def)
  note inst = strict_reorder_positions [of three_categories "post (ids_body [''3'', ''1'', ''2''])"
      "map ascii [''3'', ''1'', ''2'']" three_categories_cab
      one_question "post (ids_body email_17_name)" "map ascii email_17_name" one_question_reordered]
  from inst c bc pa(1) qc mc
  have "fst (reorder_categories (post (ids_body [''3'', ''1'', ''2''])) three_categories) = Inr HttpResponse"
    by blast
  with reorder_categories_cab
  have rc: "reorder_categories (post (ids_body [''3'', ''1'', ''2''])) three_categories
      = (Inr HttpResponse, three_categories_cab)" by simp
  from inst q bq pa(2) qq mq
  have "fst (reorder_questions (post (ids_body email_17_name)) one_question) = Inr HttpResponse"
    by blast
  with reorder_questions_email_17_name
  have rq: "reorder_questions (post (ids_body email_17_name)) one_question
      = (Inr HttpResponse, one_question_reordered)" by simp
  from inst c q bc bq rc rq
  have "mset (map position (categories three_categories_cab))
          = mset (map int [0..<length (categories three_categories_cab)])"
    and "mset (map position (questions one_question_reordered))
          = mset (map int (digit_indices (map ascii email_17_name)))"
    by blast+
  with c q bc bq pa qc qq mc mq pc pq lc rc rq
  show ?thesis by (simp only: simp_thms)
qed


section \<open>Write avoidance\<close>

lemma system_index_absent: "s \<notin> set ids \<Longrightarrow> system_index ids s = - 1"
  using index_of_None [of ids s] by (simp add: system_index_def)

lemma system_index_present:
  assumes "s \<in> set ids"
  shows "0 \<le> system_index ids s \<and> nat (system_index ids s) < length ids
       \<and> ids ! nat (system_index ids s) = s"
proof -
  from assms obtain i where i: "index_of ids s = Some i"
    using index_of_None [of ids s] by auto
  from index_of_Some [OF i] i show ?thesis by (simp add: system_index_def)
qed

lemma reindexed_moved:
  "map (\<lambda>r. r\<lparr>position := requested_position ids r\<rparr>) tab
     = map (\<lambda>r. if moved ids r then r\<lparr>position := requested_position ids r\<rparr> else r) tab"
  by (rule map_cong [OF refl]) (simp add: moved_def)

lemma canonical_selected:
  assumes "\<forall>s\<in>set ids. s = py_str (decimal_value s)"
  shows "pk r \<in> decimal_value ` set ids \<longleftrightarrow> py_str (pk r) \<in> set ids"
proof
  assume "pk r \<in> decimal_value ` set ids"
  then obtain s where s: "s \<in> set ids" and e: "pk r = decimal_value s" by auto
  from assms s have "s = py_str (decimal_value s)" by simp
  with e s show "py_str (pk r) \<in> set ids" by simp
next
  assume "py_str (pk r) \<in> set ids"
  then have "decimal_value (py_str (pk r)) \<in> decimal_value ` set ids" by (rule imageI)
  then show "pk r \<in> decimal_value ` set ids" by (simp add: decimal_value_py_str)
qed

lemma reassigned_moved:
  assumes "\<forall>s\<in>set ids. s = py_str (decimal_value s)"
  shows "reassigned ids target (decimal_value ` set ids) tab
     = map (\<lambda>i. if py_str (pk i) \<in> set ids \<and> item_moved ids target i
                 then i\<lparr>position := requested_position ids i, category := target\<rparr> else i) tab"
  unfolding reassigned_def
proof (rule map_cong [OF refl])
  fix r :: item
  show "(if pk r \<in> decimal_value ` set ids
          then r\<lparr>position := requested_position ids r, category := target\<rparr> else r)
      = (if py_str (pk r) \<in> set ids \<and> item_moved ids target r
          then r\<lparr>position := requested_position ids r, category := target\<rparr> else r)"
    using canonical_selected [OF assms, of r] by (auto simp: item_moved_def)
qed

lemma selected_canonical:
  assumes "\<forall>s\<in>set ids. s = py_str (decimal_value s)"
  shows "selected_rows tab ids = filter (\<lambda>r. py_str (pk r) \<in> set ids) tab"
  unfolding selected_rows_def
  using canonical_selected [OF assms] by (intro filter_cong [OF refl]) simp

lemma reorder_categories_132:
  "fst (reorder_categories (post (ids_body [''1'', ''3'', ''2''])) three_categories) = Inr HttpResponse
 \<and> writes (snd (reorder_categories (post (ids_body [''1'', ''3'', ''2''])) three_categories))
     = [SaveRow (CategoryObj 2) (Some [''position'']), SaveRow (CategoryObj 3) (Some [''position''])]
 \<and> categories (snd (reorder_categories (post (ids_body [''1'', ''3'', ''2''])) three_categories))
     = [\<lparr>pk = 1, position = 0\<rparr>, \<lparr>pk = 2, position = 2\<rparr>, \<lparr>pk = 3, position = 1\<rparr>]
 \<and> filter (moved (map ascii [''1'', ''3'', ''2''])) (categories three_categories)
     = [\<lparr>pk = 2, position = 1\<rparr>, \<lparr>pk = 3, position = 2\<rparr>]"
  by code_simp

lemma reorder_items_13:
  "fst (reorder_items (post (ids_body [''1'', ''3''])) 0 three_items) = Inr HttpResponse
 \<and> writes (snd (reorder_items (post (ids_body [''1'', ''3''])) 0 three_items))
     = [SaveRow (ItemObj 3) (Some [''position'', ''category_id''])]
 \<and> items (snd (reorder_items (post (ids_body [''1'', ''3''])) 0 three_items))
     = [\<lparr>pk = 1, position = 0, category = None\<rparr>, \<lparr>pk = 2, position = 1, category = None\<rparr>,
        \<lparr>pk = 3, position = 1, category = None\<rparr>]
 \<and> filter (item_moved (map ascii [''1'', ''3'']) None)
       (filter (\<lambda>i. py_str (pk i) \<in> set (map ascii [''1'', ''3''])) (items three_items))
     = [\<lparr>pk = 3, position = 0, category = Some 5\<rparr>]"
  by code_simp

text \<open>
  C2. In a successful reorder request, the rows resolved from the submitted ids that are
  saved, and those that get an audit record, are exactly the rows whose computed
  position (for an item: position or target category) differs from the stored one, once
  each and in the order of the query; rows whose computed state equals the stored state
  are neither saved nor logged. The table stored afterwards holds the computed state in
  exactly the saved rows and every other row as it was. \<^verbatim>\<open>reorder_questions\<close> adds the
  one settings write and the one event-level record.
\<close>

theorem write_avoidance:
  "(distinct (map pk (categories st1)) \<and> submitted rq1 ids1
      \<and> reorder_categories rq1 st1 = (Inr HttpResponse, st1')
    \<longrightarrow> writes st1' = writes st1 @
          map (\<lambda>c. SaveRow (CategoryObj (pk c)) (Some [''position'']))
            (filter (moved ids1) (categories st1))
      \<and> log_entries st1' = log_entries st1 @
          map (\<lambda>c. LogEntry (CategoryObj (pk c)) ''pretix.event.category.reordered'' (user rq1)
                     [(''position'', PyInt (requested_position ids1 c))])
            (filter (moved ids1) (categories st1))
      \<and> categories st1' =
          map (\<lambda>c. if moved ids1 c then c\<lparr>position := requested_position ids1 c\<rparr> else c)
            (categories st1)
      \<and> items st1' = items st1 \<and> questions st1' = questions st1 \<and> settings st1' = settings st1)
 \<and> (distinct (map pk (questions st2)) \<and> submitted rq2 ids2
      \<and> reorder_questions rq2 st2 = (Inr HttpResponse, st2')
    \<longrightarrow> writes st2' = writes st2 @
          map (\<lambda>q. SaveRow (QuestionObj (pk q)) (Some [''position'']))
            (filter (moved ids2) (questions st2))
          @ [SetSetting ''system_question_order'']
      \<and> log_entries st2' = log_entries st2 @
          map (\<lambda>q. LogEntry (QuestionObj (pk q)) ''pretix.event.question.reordered'' (user rq2)
                     [(''position'', PyInt (requested_position ids2 q))])
            (filter (moved ids2) (questions st2))
          @ [LogEntry EventObj ''pretix.event.settings'' (user rq2)
               [(''system_question_order'', PyDict (map (\<lambda>s. (s, system_index ids2 s)) system_keys))]]
      \<and> questions st2' =
          map (\<lambda>q. if moved ids2 q then q\<lparr>position := requested_position ids2 q\<rparr> else q)
            (questions st2)
      \<and> items st2' = items st2 \<and> categories st2' = categories st2
      \<and> settings st2' = (settings st2)\<lparr>system_question_order :=
                            map (\<lambda>s. (s, system_index ids2 s)) system_keys\<rparr>)
 \<and> (distinct (map pk (items st3)) \<and> submitted rq3 ids3
      \<and> reorder_items rq3 cid st3 = (Inr HttpResponse, st3')
      \<and> target = (if cid = 0 then None else Some cid)
    \<longrightarrow> writes st3' = writes st3 @
          map (\<lambda>i. SaveRow (ItemObj (pk i)) (Some [''position'', ''category_id'']))
            (filter (item_moved ids3 target)
               (filter (\<lambda>i. py_str (pk i) \<in> set ids3) (items st3)))
      \<and> log_entries st3' = log_entries st3 @
          map (\<lambda>i. LogEntry (ItemObj (pk i)) ''pretix.event.item.reordered'' (user rq3)
                 [(''position'', PyItem (i\<lparr>position := requested_position ids3 i, category := target\<rparr>)),
                  (''category'', (case target of None \<Rightarrow> PyNone | Some c \<Rightarrow> PyInt (int c)))])
            (filter (item_moved ids3 target)
               (filter (\<lambda>i. py_str (pk i) \<in> set ids3) (items st3)))
      \<and> items st3' =
          map (\<lambda>i. if py_str (pk i) \<in> set ids3 \<and> item_moved ids3 target i
                     then i\<lparr>position := requested_position ids3 i, category := target\<rparr> else i)
            (items st3)
      \<and> categories st3' = categories st3 \<and> questions st3' = questions st3
      \<and> settings st3' = settings st3)"
proof -
  have "writes st1' = writes st1 @
          map (\<lambda>c. SaveRow (CategoryObj (pk c)) (Some [''position'']))
            (filter (moved ids1) (categories st1))
      \<and> log_entries st1' = log_entries st1 @
          map (\<lambda>c. LogEntry (CategoryObj (pk c)) ''pretix.event.category.reordered'' (user rq1)
                     [(''position'', PyInt (requested_position ids1 c))])
            (filter (moved ids1) (categories st1))
      \<and> categories st1' =
          map (\<lambda>c. if moved ids1 c then c\<lparr>position := requested_position ids1 c\<rparr> else c)
            (categories st1)
      \<and> items st1' = items st1 \<and> questions st1' = questions st1 \<and> settings st1' = settings st1"
    if "distinct (map pk (categories st1))" "submitted rq1 ids1"
      "reorder_categories rq1 st1 = (Inr HttpResponse, st1')"
    using reorder_categories_effect [OF that(3) that(2) that(1)]
    by (simp add: reindexed_moved)
  moreover have "writes st2' = writes st2 @
          map (\<lambda>q. SaveRow (QuestionObj (pk q)) (Some [''position'']))
            (filter (moved ids2) (questions st2))
          @ [SetSetting ''system_question_order'']
      \<and> log_entries st2' = log_entries st2 @
          map (\<lambda>q. LogEntry (QuestionObj (pk q)) ''pretix.event.question.reordered'' (user rq2)
                     [(''position'', PyInt (requested_position ids2 q))])
            (filter (moved ids2) (questions st2))
          @ [LogEntry EventObj ''pretix.event.settings'' (user rq2)
               [(''system_question_order'', PyDict (map (\<lambda>s. (s, system_index ids2 s)) system_keys))]]
      \<and> questions st2' =
          map (\<lambda>q. if moved ids2 q then q\<lparr>position := requested_position ids2 q\<rparr> else q)
            (questions st2)
      \<and> items st2' = items st2 \<and> categories st2' = categories st2
      \<and> settings st2' = (settings st2)\<lparr>system_question_order :=
                            map (\<lambda>s. (s, system_index ids2 s)) system_keys\<rparr>"
    if "distinct (map pk (questions st2))" "submitted rq2 ids2"
      "reorder_questions rq2 st2 = (Inr HttpResponse, st2')"
    using reorder_questions_effect [OF that(3) that(2) that(1)]
    by (simp add: reindexed_moved)
  moreover have "writes st3' = writes st3 @
          map (\<lambda>i. SaveRow (ItemObj (pk i)) (Some [''position'', ''category_id'']))
            (filter (item_moved ids3 target)
               (filter (\<lambda>i. py_str (pk i) \<in> set ids3) (items st3)))
      \<and> log_entries st3' = log_entries st3 @
          map (\<lambda>i. LogEntry (ItemObj (pk i)) ''pretix.event.item.reordered'' (user rq3)
                 [(''position'', PyItem (i\<lparr>position := requested_position ids3 i, category := target\<rparr>)),
                  (''category'', (case target of None \<Rightarrow> PyNone | Some c \<Rightarrow> PyInt (int c)))])
            (filter (item_moved ids3 target)
               (filter (\<lambda>i. py_str (pk i) \<in> set ids3) (items st3)))
      \<and> items st3' =
          map (\<lambda>i. if py_str (pk i) \<in> set ids3 \<and> item_moved ids3 target i
                     then i\<lparr>position := requested_position ids3 i, category := target\<rparr> else i)
            (items st3)
      \<and> categories st3' = categories st3 \<and> questions st3' = questions st3
      \<and> settings st3' = settings st3"
    if "distinct (map pk (items st3))" "submitted rq3 ids3"
      "reorder_items rq3 cid st3 = (Inr HttpResponse, st3')"
      "target = (if cid = 0 then None else Some cid)"
  proof -
    note eff = reorder_items_effect [OF that(3) that(2) that(1) that(4)]
    from eff have canon: "\<forall>s\<in>set ids3. s = py_str (decimal_value s)" by simp
    from eff show ?thesis
      by (simp only: reassigned_moved [OF canon] selected_canonical [OF canon])
  qed
  ultimately show ?thesis by blast
qed

theorem write_avoidance_witness:
  "distinct (map pk (categories three_categories))
 \<and> submitted (post (ids_body [''1'', ''3'', ''2''])) (map ascii [''1'', ''3'', ''2''])
 \<and> fst (reorder_categories (post (ids_body [''1'', ''3'', ''2''])) three_categories) = Inr HttpResponse
 \<and> writes (snd (reorder_categories (post (ids_body [''1'', ''3'', ''2''])) three_categories))
     = writes three_categories @ map (\<lambda>c. SaveRow (CategoryObj (pk c)) (Some [''position'']))
         [\<lparr>pk = 2, position = 1\<rparr>, \<lparr>pk = 3, position = 2\<rparr>]
 \<and> categories (snd (reorder_categories (post (ids_body [''1'', ''3'', ''2''])) three_categories))
     = [\<lparr>pk = 1, position = 0\<rparr>, \<lparr>pk = 2, position = 2\<rparr>, \<lparr>pk = 3, position = 1\<rparr>]
 \<and> distinct (map pk (questions one_question))
 \<and> submitted (post (ids_body email_17_name)) (map ascii email_17_name)
 \<and> reorder_questions (post (ids_body email_17_name)) one_question
     = (Inr HttpResponse, one_question_reordered)
 \<and> writes one_question_reordered = writes one_question @
     map (\<lambda>q. SaveRow (QuestionObj (pk q)) (Some [''position'']))
       (filter (moved (map ascii email_17_name)) (questions one_question))
     @ [SetSetting ''system_question_order'']
 \<and> distinct (map pk (items three_items))
 \<and> submitted (post (ids_body [''1'', ''3''])) (map ascii [''1'', ''3''])
 \<and> fst (reorder_items (post (ids_body [''1'', ''3''])) 0 three_items) = Inr HttpResponse
 \<and> writes (snd (reorder_items (post (ids_body [''1'', ''3''])) 0 three_items))
     = writes three_items @ map (\<lambda>i. SaveRow (ItemObj (pk i)) (Some [''position'', ''category_id'']))
         [\<lparr>pk = 3, position = 0, category = Some 5\<rparr>]
 \<and> items (snd (reorder_items (post (ids_body [''1'', ''3''])) 0 three_items))
     = [\<lparr>pk = 1, position = 0, category = None\<rparr>, \<lparr>pk = 2, position = 1, category = None\<rparr>,
        \<lparr>pk = 3, position = 1, category = None\<rparr>]"
proof -
  have c: "distinct (map pk (categories three_categories))"
    by (simp add: three_categories_def empty_event_def)
  have q: "distinct (map pk (questions one_question))"
    by (simp add: one_question_def empty_event_def)
  have i: "distinct (map pk (items three_items))"
    by (simp add: three_items_def empty_event_def)
  note bc = submitted_post [of "[''1'', ''3'', ''2'']"]
  note bq = submitted_post [of email_17_name]
  note bi = submitted_post [of "[''1'', ''3'']"]
  have rc: "reorder_categories (post (ids_body [''1'', ''3'', ''2''])) three_categories
      = (Inr HttpResponse, snd (reorder_categories (post (ids_body [''1'', ''3'', ''2''])) three_categories))"
    using reorder_categories_132 by (simp add: prod_eq_iff)
  have ri: "reorder_items (post (ids_body [''1'', ''3''])) 0 three_items
      = (Inr HttpResponse, snd (reorder_items (post (ids_body [''1'', ''3''])) 0 three_items))"
    using reorder_items_13 by (simp add: prod_eq_iff)
  have t: "(None :: nat option) = (if (0::nat) = 0 then None else Some 0)" by simp
  from write_avoidance [of three_categories "post (ids_body [''1'', ''3'', ''2''])"
      "map ascii [''1'', ''3'', ''2'']"
      "snd (reorder_categories (post (ids_body [''1'', ''3'', ''2''])) three_categories)"
      one_question "post (ids_body email_17_name)" "map ascii email_17_name" one_question_reordered
      three_items "post (ids_body [''1'', ''3''])" "map ascii [''1'', ''3'']" 0
      "snd (reorder_items (post (ids_body [''1'', ''3''])) 0 three_items)" None]
    c q i bc bq bi rc ri t reorder_questions_email_17_name
  have "writes (snd (reorder_categories (post (ids_body [''1'', ''3'', ''2''])) three_categories))
      = writes three_categories @ map (\<lambda>c. SaveRow (CategoryObj (pk c)) (Some [''position'']))
          (filter (moved (map ascii [''1'', ''3'', ''2''])) (categories three_categories))"
    and "writes one_question_reordered = writes one_question @
     map (\<lambda>q. SaveRow (QuestionObj (pk q)) (Some [''position'']))
       (filter (moved (map ascii email_17_name)) (questions one_question))
     @ [SetSetting ''system_question_order'']"
    and "writes (snd (reorder_items (post (ids_body [''1'', ''3''])) 0 three_items))
     = writes three_items @ map (\<lambda>i. SaveRow (ItemObj (pk i)) (Some [''position'', ''category_id'']))
         (filter (item_moved (map ascii [''1'', ''3'']) None)
            (filter (\<lambda>i. py_str (pk i) \<in> set (map ascii [''1'', ''3''])) (items three_items)))"
    by blast+
  with c q i bc bq bi reorder_categories_132 reorder_items_13 reorder_questions_email_17_name
  show ?thesis by (simp only:)
qed


section \<open>The order of the system questions\<close>

text \<open>
  C6. A successful \<^verbatim>\<open>reorder_questions\<close> stores as \<^verbatim>\<open>system_question_order\<close> the
  dictionary that gives each of the seven system keys its index in the submitted list,
  or -1 when the key is not in the list, and leaves the other settings alone; it is one
  settings write, after the saves of the moved questions, and one audit record on the
  event that carries the whole dictionary, after the records of the moved questions.
\<close>

theorem system_question_order_written:
  assumes "distinct (map pk (questions st))" and "submitted rq ids"
    and "reorder_questions rq st = (Inr HttpResponse, st')"
  shows "settings st' = (settings st)\<lparr>system_question_order :=
            map (\<lambda>s. (s, system_index ids s)) system_keys\<rparr>
       \<and> map fst (system_question_order (settings st')) =
            map ascii [''attendee_name_parts'', ''attendee_email'', ''company'', ''street'',
                       ''zipcode'', ''city'', ''country'']
       \<and> (\<forall>s. (s \<notin> set ids \<longrightarrow> system_index ids s = - 1)
             \<and> (s \<in> set ids \<longrightarrow> 0 \<le> system_index ids s \<and> nat (system_index ids s) < length ids
                  \<and> ids ! nat (system_index ids s) = s))
       \<and> writes st' = writes st @
            map (\<lambda>q. SaveRow (QuestionObj (pk q)) (Some [''position'']))
              (filter (moved ids) (questions st))
            @ [SetSetting ''system_question_order'']
       \<and> log_entries st' = log_entries st @
            map (\<lambda>q. LogEntry (QuestionObj (pk q)) ''pretix.event.question.reordered'' (user rq)
                       [(''position'', PyInt (requested_position ids q))])
              (filter (moved ids) (questions st))
            @ [LogEntry EventObj ''pretix.event.settings'' (user rq)
                 [(''system_question_order'', PyDict (system_question_order (settings st')))]]"
proof -
  note eff = reorder_questions_effect [OF assms(3) assms(2) assms(1)]
  have keys: "map fst (map (\<lambda>s. (s, system_index ids s)) system_keys) =
            map ascii [''attendee_name_parts'', ''attendee_email'', ''company'', ''street'',
                       ''zipcode'', ''city'', ''country'']"
    by (simp add: system_keys_def)
  have idx: "\<forall>s. (s \<notin> set ids \<longrightarrow> system_index ids s = - 1)
             \<and> (s \<in> set ids \<longrightarrow> 0 \<le> system_index ids s \<and> nat (system_index ids s) < length ids
                  \<and> ids ! nat (system_index ids s) = s)"
    using system_index_absent [of _ ids] system_index_present [of _ ids] by blast
  from eff keys idx show ?thesis by simp
qed

theorem system_question_order_written_witness:
  "distinct (map pk (questions one_question))
 \<and> submitted (post (ids_body email_17_name)) (map ascii email_17_name)
 \<and> reorder_questions (post (ids_body email_17_name)) one_question
     = (Inr HttpResponse, one_question_reordered)
 \<and> system_question_order (settings one_question_reordered) =
      [(ascii ''attendee_name_parts'', 2), (ascii ''attendee_email'', 0), (ascii ''company'', - 1),
       (ascii ''street'', - 1), (ascii ''zipcode'', - 1), (ascii ''city'', - 1),
       (ascii ''country'', - 1)]
 \<and> settings one_question_reordered = (settings one_question)\<lparr>system_question_order :=
      map (\<lambda>s. (s, system_index (map ascii email_17_name) s)) system_keys\<rparr>"
proof -
  have q: "distinct (map pk (questions one_question))"
    by (simp add: one_question_def empty_event_def)
  note b = submitted_post [of email_17_name]
  have s: "system_question_order (settings one_question_reordered) =
      [(ascii ''attendee_name_parts'', 2), (ascii ''attendee_email'', 0), (ascii ''company'', - 1),
       (ascii ''street'', - 1), (ascii ''zipcode'', - 1), (ascii ''city'', - 1),
       (ascii ''country'', - 1)]"
    by (simp add: one_question_reordered_def empty_event_def)
  from system_question_order_written [OF q b reorder_questions_email_17_name]
  have "settings one_question_reordered = (settings one_question)\<lparr>system_question_order :=
      map (\<lambda>s. (s, system_index (map ascii email_17_name) s)) system_keys\<rparr>"
    by (rule conjunct1)
  with q b s reorder_questions_email_17_name show ?thesis by (simp only:)
qed

section \<open>Rejected requests\<close>

lemma gates_failure:
  assumes inner: "\<And>r st'. f st = (Inr r, st') \<Longrightarrow> r = HttpResponse \<or> st' = st"
    and fail: "fst (atomic (event_permission_required rq (require_http_methods [''POST''] rq f)) st)
               \<noteq> Inr HttpResponse"
  shows "snd (atomic (event_permission_required rq (require_http_methods [''POST''] rq f)) st) = st"
proof (cases "can_change_items rq \<and> http_method rq = ''POST''")
  case False
  then show ?thesis
    by (auto simp: atomic_def event_permission_required_def require_http_methods_def)
next
  case True
  then have eq: "atomic (event_permission_required rq (require_http_methods [''POST''] rq f)) st
      = (case f st of (Inl e, st') \<Rightarrow> (Inl e, st) | (Inr r, st') \<Rightarrow> (Inr r, st'))"
    by (simp add: atomic_def event_permission_required_def require_http_methods_def)
  obtain x st' where fx: "f st = (x, st')" by (cases "f st")
  show ?thesis
  proof (cases x)
    case (Inl e)
    with eq fx show ?thesis by simp
  next
    case (Inr r)
    with eq fx fail have "r \<noteq> HttpResponse" by simp
    with inner [of r st'] fx Inr have "st' = st" by simp
    with eq fx Inr show ?thesis by simp
  qed
qed

lemma reorder_categories_body_frame:
  "reorder_categories_body rq st = (Inr r, st') \<Longrightarrow> r = HttpResponse \<or> st' = st"
  by (auto simp: reorder_categories_body_def Let_def
      split: loaded.splits if_splits prod.splits sum.splits)

lemma reorder_questions_body_frame:
  "reorder_questions_body rq st = (Inr r, st') \<Longrightarrow> r = HttpResponse \<or> st' = st"
  by (auto simp: reorder_questions_body_def Let_def
      split: loaded.splits if_splits prod.splits sum.splits)

lemma reorder_items_body_frame:
  "reorder_items_body rq cid st = (Inr r, st') \<Longrightarrow> r = HttpResponse \<or> st' = st"
  by (auto simp: reorder_items_body_def Let_def
      split: loaded.splits if_splits prod.splits sum.splits option.splits)

lemma reorder_categories_failure:
  "fst (reorder_categories rq st) \<noteq> Inr HttpResponse \<Longrightarrow> snd (reorder_categories rq st) = st"
  unfolding reorder_categories_def
  by (rule gates_failure [OF reorder_categories_body_frame])

lemma reorder_questions_failure:
  "fst (reorder_questions rq st) \<noteq> Inr HttpResponse \<Longrightarrow> snd (reorder_questions rq st) = st"
  unfolding reorder_questions_def
  by (rule gates_failure [OF reorder_questions_body_frame])

lemma reorder_items_failure:
  "fst (reorder_items rq cid st) \<noteq> Inr HttpResponse \<Longrightarrow> snd (reorder_items rq cid st) = st"
  unfolding reorder_items_def
  by (rule gates_failure [OF reorder_items_body_frame])

lemma query_converts:
  "id_query_error st vals = None \<Longrightarrow> v \<in> set vals \<Longrightarrow>
   py_int (int_max_str_digits st) v = Some (decimal_value v)"
  by (auto simp: id_query_error_def list_all_iff py_int_def split: if_splits)

lemma id_key_digit:
  "id_query_error st (filter isdigit ids) = None \<Longrightarrow> s \<in> set ids \<Longrightarrow> isdigit s \<Longrightarrow>
   id_key st s = Some (decimal_value s)"
  using query_converts [of st "filter isdigit ids" s] by (simp add: id_key_def)

lemma id_key_resolves:
  assumes "id_query_error st (filter isdigit ids) = None" and "s \<in> set ids"
  shows "id_key st s \<in> Some ` K \<longleftrightarrow> isdigit s \<and> decimal_value s \<in> K"
proof (cases "isdigit s")
  case True
  with id_key_digit [OF assms] show ?thesis by auto
next
  case False
  then show ?thesis by (auto simp: id_key_def)
qed

lemma named_keys_eq:
  assumes "id_query_error st (filter isdigit ids) = None"
  shows "named_keys st ids = map decimal_value (filter isdigit ids)"
proof -
  have "\<forall>s\<in>set xs. isdigit s \<longrightarrow> id_key st s = Some (decimal_value s) \<Longrightarrow>
        named_keys st xs = map decimal_value (filter isdigit xs)" for xs
    by (induction xs) (auto simp: named_keys_def List.map_filter_simps id_key_def)
  with id_key_digit [OF assms] show ?thesis by blast
qed

lemma reorder_categories_valid:
  assumes ok: "fst (reorder_categories rq st) = Inr HttpResponse"
    and b: "submitted rq ids" and d: "distinct (map pk (categories st))"
  shows "id_query_error st (filter isdigit ids) = None
       \<and> (\<forall>s\<in>set ids. isdigit s \<and> decimal_value s \<in> pk ` set (categories st))
       \<and> distinct (map decimal_value ids) \<and> pk ` set (categories st) \<subseteq> decimal_value ` set ids"
proof -
  from ok have "reorder_categories rq st = (Inr HttpResponse, snd (reorder_categories rq st))"
    by (simp add: prod_eq_iff)
  note s = reorder_categories_success [OF this b]
  note q = s(2) and l1 = s(3) and l2 = s(4)
  from l1 d have v: "(\<forall>s\<in>set ids. isdigit s \<and> decimal_value s \<in> pk ` set (categories st))
       \<and> distinct (map decimal_value ids)" by (simp add: all_digits_iff)
  then have "filter isdigit ids = ids" by simp
  with l2 d have "pk ` set (categories st) \<subseteq> decimal_value ` set ids" by (simp add: all_selected_iff)
  with v q show ?thesis by simp
qed

lemma reorder_questions_valid:
  assumes ok: "fst (reorder_questions rq st) = Inr HttpResponse"
    and b: "submitted rq ids" and d: "distinct (map pk (questions st))"
  shows "id_query_error st (filter isdigit ids) = None
       \<and> (\<forall>s\<in>set ids. isdigit s \<longrightarrow> decimal_value s \<in> pk ` set (questions st))
       \<and> distinct (map decimal_value (filter isdigit ids))
       \<and> pk ` set (questions st) \<subseteq> decimal_value ` set (filter isdigit ids)"
proof -
  from ok have "reorder_questions rq st = (Inr HttpResponse, snd (reorder_questions rq st))"
    by (simp add: prod_eq_iff)
  from this b obtain st1 where q: "id_query_error st (filter isdigit ids) = None"
    and l1: "length (selected_rows (questions st) (filter isdigit ids)) = length (filter isdigit ids)"
    and l2: "length (selected_rows (questions st) (filter isdigit ids)) = length (questions st)"
    by (rule reorder_questions_success)
  from l1 d have "(\<forall>s\<in>set (filter isdigit ids). decimal_value s \<in> pk ` set (questions st))
       \<and> distinct (map decimal_value (filter isdigit ids))" by (simp add: resolved_iff)
  moreover from l2 d have "pk ` set (questions st) \<subseteq> decimal_value ` set (filter isdigit ids)"
    by (simp add: all_selected_iff)
  ultimately show ?thesis using q by simp
qed

lemma reorder_items_valid:
  assumes ok: "fst (reorder_items rq cid st) = Inr HttpResponse"
    and b: "submitted rq ids" and d: "distinct (map pk (items st))"
  shows "id_query_error st (filter isdigit ids) = None
       \<and> (\<forall>s\<in>set ids. isdigit s \<and> decimal_value s \<in> pk ` set (items st))
       \<and> distinct (map decimal_value ids)"
proof -
  from ok have "reorder_items rq cid st = (Inr HttpResponse, snd (reorder_items rq cid st))"
    by (simp add: prod_eq_iff)
  from this b obtain tc where q: "id_query_error st (filter isdigit ids) = None"
    and l1: "length (selected_rows (items st) (filter isdigit ids)) = length ids"
    by (rule reorder_items_success)
  from l1 d q show ?thesis by (simp add: all_digits_iff)
qed






lemma reorder_items_raises:
  "post_allowed rq \<Longrightarrow> submitted rq ids \<Longrightarrow>
   id_query_error st (filter isdigit ids) = Some e \<Longrightarrow>
   reorder_items rq cid st = (Inl e, st)"
  by (simp add: reorder_items_def reorder_items_body_def atomic_def post_allowed_def
      event_permission_required_def require_http_methods_def Let_def submitted_def filter_id_in_eq)








lemma unresolved_9:
  "fst (reorder_items (post (ids_body [''9''])) 0 busy_event) = Inl (Http404 invalid_ids)
 \<and> fst (reorder_categories (post (ids_body [''9''])) busy_event) = Inl (Http404 invalid_ids)
 \<and> fst (reorder_questions (post (ids_body [''9''])) busy_event) = Inl (Http404 invalid_ids)
 \<and> id_key busy_event (ascii ''9'') \<notin> Some ` pk ` set (items busy_event)
 \<and> id_key busy_event (ascii ''9'') \<notin> Some ` pk ` set (categories busy_event)
 \<and> id_key busy_event (ascii ''9'') \<notin> Some ` pk ` set (questions busy_event)
 \<and> isdigit (ascii ''9'')"
  by code_simp

lemma leading_zero_rolled_back:
  "fst (reorder_categories (post (ids_body [''3'', ''1'', ''02''])) three_categories) = Inl ValueError
 \<and> reorder_categories_body (post (ids_body [''3'', ''1'', ''02''])) three_categories
     = (Inl ValueError, three_categories\<lparr>
          categories := [\<lparr>pk = 1, position = 1\<rparr>, \<lparr>pk = 2, position = 1\<rparr>, \<lparr>pk = 3, position = 2\<rparr>],
          log_entries := [LogEntry (CategoryObj 1) ''pretix.event.category.reordered'' 7
                            [(''position'', PyInt 1)]],
          writes := [SaveRow (CategoryObj 1) (Some [''position''])]\<rparr>)"
  by code_simp

lemma other_digit_raises:
  "fst (reorder_questions (post (body_of_ids [ascii ''17'', superscript_two])) one_question)
     = Inl ValueError
 \<and> isdigit superscript_two
 \<and> id_key one_question superscript_two \<notin> Some ` pk ` set (questions one_question)"
  by code_simp

lemma other_script_raises:
  "fst (reorder_categories (post (body_of_ids [arabic_indic_one])) one_category) = Inl ValueError
 \<and> id_key one_category arabic_indic_one = Some 1
 \<and> id_query_error one_category (filter isdigit [arabic_indic_one]) = None"
  by code_simp

text \<open>
  C3. A reorder request that does not end in the empty success response leaves the
  state of the event (items, categories, questions, settings, audit log, writes) exactly
  as it was; and a submitted list with an id that does not resolve, or, for categories
  and questions, a list that misses an entity, does not end in the success response.
\<close>

theorem failed_reorder_changes_nothing:
  "(fst (reorder_items rq cid st) \<noteq> Inr HttpResponse \<longrightarrow> snd (reorder_items rq cid st) = st)
 \<and> (fst (reorder_categories rq st) \<noteq> Inr HttpResponse \<longrightarrow> snd (reorder_categories rq st) = st)
 \<and> (fst (reorder_questions rq st) \<noteq> Inr HttpResponse \<longrightarrow> snd (reorder_questions rq st) = st)
 \<and> (submitted rq ids \<and> distinct (map pk (items st))
      \<and> (\<exists>s\<in>set ids. id_key st s \<notin> Some ` pk ` set (items st))
    \<longrightarrow> fst (reorder_items rq cid st) \<noteq> Inr HttpResponse)
 \<and> (submitted rq ids \<and> distinct (map pk (categories st))
      \<and> ((\<exists>s\<in>set ids. id_key st s \<notin> Some ` pk ` set (categories st))
          \<or> \<not> pk ` set (categories st) \<subseteq> set (named_keys st ids))
    \<longrightarrow> fst (reorder_categories rq st) \<noteq> Inr HttpResponse)
 \<and> (submitted rq ids \<and> distinct (map pk (questions st))
      \<and> ((\<exists>s\<in>set ids. isdigit s \<and> id_key st s \<notin> Some ` pk ` set (questions st))
          \<or> \<not> pk ` set (questions st) \<subseteq> set (named_keys st ids))
    \<longrightarrow> fst (reorder_questions rq st) \<noteq> Inr HttpResponse)"
proof -
  have "fst (reorder_items rq cid st) \<noteq> Inr HttpResponse"
    if "submitted rq ids" "distinct (map pk (items st))"
      "\<exists>s\<in>set ids. id_key st s \<notin> Some ` pk ` set (items st)"
  proof
    assume "fst (reorder_items rq cid st) = Inr HttpResponse"
    note v = reorder_items_valid [OF this that(1) that(2)]
    note q = v [THEN conjunct1]
    from v have "\<forall>s\<in>set ids. id_key st s \<in> Some ` pk ` set (items st)"
      using id_key_resolves [OF q] by blast
    with that(3) show False by blast
  qed
  moreover have "fst (reorder_categories rq st) \<noteq> Inr HttpResponse"
    if "submitted rq ids" "distinct (map pk (categories st))"
      "(\<exists>s\<in>set ids. id_key st s \<notin> Some ` pk ` set (categories st))
          \<or> \<not> pk ` set (categories st) \<subseteq> set (named_keys st ids)"
  proof
    assume "fst (reorder_categories rq st) = Inr HttpResponse"
    note v = reorder_categories_valid [OF this that(1) that(2)]
    note q = v [THEN conjunct1]
    from v have r: "\<forall>s\<in>set ids. id_key st s \<in> Some ` pk ` set (categories st)"
      using id_key_resolves [OF q] by blast
    from v have "filter isdigit ids = ids" by simp
    with v have "pk ` set (categories st) \<subseteq> set (named_keys st ids)"
      by (simp add: named_keys_eq [OF q])
    with r that(3) show False by blast
  qed
  moreover have "fst (reorder_questions rq st) \<noteq> Inr HttpResponse"
    if "submitted rq ids" "distinct (map pk (questions st))"
      "(\<exists>s\<in>set ids. isdigit s \<and> id_key st s \<notin> Some ` pk ` set (questions st))
          \<or> \<not> pk ` set (questions st) \<subseteq> set (named_keys st ids)"
  proof
    assume "fst (reorder_questions rq st) = Inr HttpResponse"
    note v = reorder_questions_valid [OF this that(1) that(2)]
    note q = v [THEN conjunct1]
    from v have r: "\<forall>s\<in>set ids. isdigit s \<longrightarrow> id_key st s \<in> Some ` pk ` set (questions st)"
      using id_key_resolves [OF q] by blast
    from v have "pk ` set (questions st) \<subseteq> set (named_keys st ids)"
      by (simp add: named_keys_eq [OF q])
    with r that(3) show False by blast
  qed
  ultimately show ?thesis
    using reorder_items_failure [of rq cid st] reorder_categories_failure [of rq st]
      reorder_questions_failure [of rq st]
    by blast
qed

theorem failed_reorder_changes_nothing_witness:
  "fst (reorder_items (post (ids_body [''9''])) 0 busy_event) \<noteq> Inr HttpResponse
 \<and> fst (reorder_categories (post (ids_body [''9''])) busy_event) \<noteq> Inr HttpResponse
 \<and> fst (reorder_questions (post (ids_body [''9''])) busy_event) \<noteq> Inr HttpResponse
 \<and> snd (reorder_items (post (ids_body [''9''])) 0 busy_event) = busy_event
 \<and> snd (reorder_categories (post (ids_body [''9''])) busy_event) = busy_event
 \<and> snd (reorder_questions (post (ids_body [''9''])) busy_event) = busy_event
 \<and> fst (reorder_categories (post (ids_body [''3'', ''1'', ''02''])) three_categories) \<noteq> Inr HttpResponse
 \<and> snd (reorder_categories_body (post (ids_body [''3'', ''1'', ''02''])) three_categories) \<noteq> three_categories
 \<and> snd (reorder_categories (post (ids_body [''3'', ''1'', ''02''])) three_categories) = three_categories
 \<and> fst (reorder_questions (post (body_of_ids [ascii ''17'', superscript_two])) one_question)
     \<noteq> Inr HttpResponse
 \<and> snd (reorder_questions (post (body_of_ids [ascii ''17'', superscript_two])) one_question)
     = one_question
 \<and> fst (reorder_categories (post (body_of_ids [arabic_indic_one])) one_category) \<noteq> Inr HttpResponse
 \<and> snd (reorder_categories (post (body_of_ids [arabic_indic_one])) one_category) = one_category"
proof -
  have f: "fst (reorder_items (post (ids_body [''9''])) 0 busy_event) \<noteq> Inr HttpResponse"
    "fst (reorder_categories (post (ids_body [''9''])) busy_event) \<noteq> Inr HttpResponse"
    "fst (reorder_questions (post (ids_body [''9''])) busy_event) \<noteq> Inr HttpResponse"
    using unresolved_9 by simp_all
  have g: "fst (reorder_categories (post (ids_body [''3'', ''1'', ''02''])) three_categories) \<noteq> Inr HttpResponse"
    using leading_zero_rolled_back by simp
  have h: "snd (reorder_categories_body (post (ids_body [''3'', ''1'', ''02''])) three_categories) \<noteq> three_categories"
    using leading_zero_rolled_back by (simp add: three_categories_def empty_event_def)
  have u: "fst (reorder_questions (post (body_of_ids [ascii ''17'', superscript_two])) one_question)
      \<noteq> Inr HttpResponse"
    using other_digit_raises by simp
  have a: "fst (reorder_categories (post (body_of_ids [arabic_indic_one])) one_category) \<noteq> Inr HttpResponse"
    using other_script_raises by simp
  note i1 = failed_reorder_changes_nothing [of "post (ids_body [''9''])" 0 busy_event]
  note i2 = failed_reorder_changes_nothing [of "post (ids_body [''3'', ''1'', ''02''])" 0 three_categories]
  note i3 = failed_reorder_changes_nothing [of "post (body_of_ids [ascii ''17'', superscript_two])" 0 one_question]
  note i4 = failed_reorder_changes_nothing [of "post (body_of_ids [arabic_indic_one])" 0 one_category]
  from i1 f(1) have s1: "snd (reorder_items (post (ids_body [''9''])) 0 busy_event) = busy_event"
    by (simp only: simp_thms)
  from i1 f(2) have s2: "snd (reorder_categories (post (ids_body [''9''])) busy_event) = busy_event"
    by (simp only: simp_thms)
  from i1 f(3) have s3: "snd (reorder_questions (post (ids_body [''9''])) busy_event) = busy_event"
    by (simp only: simp_thms)
  from i2 g have s4: "snd (reorder_categories (post (ids_body [''3'', ''1'', ''02''])) three_categories)
      = three_categories"
    by (simp only: simp_thms)
  from i3 u have s5: "snd (reorder_questions (post (body_of_ids [ascii ''17'', superscript_two])) one_question)
      = one_question"
    by (simp only: simp_thms)
  from i4 a have s6: "snd (reorder_categories (post (body_of_ids [arabic_indic_one])) one_category)
      = one_category"
    by (simp only: simp_thms)
  from f g h u a s1 s2 s3 s4 s5 s6 show ?thesis by (simp only: simp_thms)
qed


section \<open>Classification of rejected lists\<close>






section \<open>The audit record of a reordered item\<close>

text \<open>
  C5. In \<^verbatim>\<open>reorder_items\<close> the item is saved and logged once when its position or
  category changes, and items that are not named stay as they are; but the audit
  record does not carry the new position: its \<^verbatim>\<open>position\<close> entry is the loop variable
  \<^verbatim>\<open>i\<close>, the \<^verbatim>\<open>Item\<close> instance, where \<^verbatim>\<open>reorder_categories\<close>, \<^verbatim>\<open>reorder_questions\<close> and
  \<^verbatim>\<open>item_move\<close> store the integer. With the items 1, 2 (no category, positions 0, 1)
  and 3 (category 5, position 0), the request \<^verbatim>\<open>1, 3\<close> for no category moves item 3 to
  position 1 and logs the instance.
\<close>

theorem reorder_items_logs_instance:
  "fst (reorder_items (post (ids_body [''1'', ''3''])) 0 three_items) = Inr HttpResponse
 \<and> items (snd (reorder_items (post (ids_body [''1'', ''3''])) 0 three_items))
     = [\<lparr>pk = 1, position = 0, category = None\<rparr>, \<lparr>pk = 2, position = 1, category = None\<rparr>,
        \<lparr>pk = 3, position = 1, category = None\<rparr>]
 \<and> writes (snd (reorder_items (post (ids_body [''1'', ''3''])) 0 three_items))
     = [SaveRow (ItemObj 3) (Some [''position'', ''category_id''])]
 \<and> log_entries (snd (reorder_items (post (ids_body [''1'', ''3''])) 0 three_items))
     = [LogEntry (ItemObj 3) ''pretix.event.item.reordered'' 7
          [(''position'', PyItem \<lparr>pk = 3, position = 1, category = None\<rparr>), (''category'', PyNone)]]
 \<and> log_entries (snd (reorder_items (post (ids_body [''1'', ''3''])) 0 three_items))
     \<noteq> [LogEntry (ItemObj 3) ''pretix.event.item.reordered'' 7
          [(''position'', PyInt 1), (''category'', PyNone)]]
 \<and> log_entries (snd (reorder_categories (post (ids_body [''1'', ''3'', ''2''])) three_categories))
     = [LogEntry (CategoryObj 2) ''pretix.event.category.reordered'' 7 [(''position'', PyInt 2)],
        LogEntry (CategoryObj 3) ''pretix.event.category.reordered'' 7 [(''position'', PyInt 1)]]"
  by code_simp

section \<open>Single-step moves: the renumbering loop\<close>

lemma index_of_nth_distinct: "distinct ys \<Longrightarrow> j < length ys \<Longrightarrow> index_of ys (ys ! j) = Some j"
proof (induction ys arbitrary: j)
  case Nil
  then show ?case by simp
next
  case (Cons y ys)
  show ?case
  proof (cases j)
    case 0
    then show ?thesis by simp
  next
    case (Suc m)
    with Cons.prems have "ys ! m \<in> set ys" "y \<notin> set ys" by simp_all
    then have "y \<noteq> ys ! m" by auto
    with Cons Suc show ?thesis by simp
  qed
qed

lemma map_pk_save_all [simp]: "map pk (save_all obj tab) = map pk tab"
  by (simp add: save_all_def)

lemma save_all_other:
  "x \<in> set tab \<Longrightarrow> pk x \<noteq> pk obj \<Longrightarrow> x \<in> set (save_all obj tab)"
  by (force simp: save_all_def)

lemma renumbered_step:
  assumes d: "distinct (map pk tab)" and c: "c \<in> set tab" and n: "pk c \<notin> pk ` set xs"
  shows "renumbered (Suc i) xs (save_all (c\<lparr>position := int i\<rparr>) tab) = renumbered i (c # xs) tab"
  unfolding renumbered_def save_all_def map_map
proof (rule map_cong [OF refl])
  fix r assume r: "r \<in> set tab"
  from n have none: "index_of (map pk xs) (pk c) = None" by (simp add: index_of_None)
  show "((\<lambda>r. case index_of (map pk xs) (pk r) of None \<Rightarrow> r
               | Some j \<Rightarrow> r\<lparr>position := int (Suc i + j)\<rparr>) \<circ>
          (\<lambda>r. if pk r = pk (c\<lparr>position := int i\<rparr>) then c\<lparr>position := int i\<rparr> else r)) r
      = (case index_of (map pk (c # xs)) (pk r) of None \<Rightarrow> r
         | Some j \<Rightarrow> r\<lparr>position := int (i + j)\<rparr>)"
  proof (cases "pk r = pk c")
    case True
    with d r c have "r = c" by (rule same_pk_same_row)
    with none show ?thesis by simp
  next
    case False
    then show ?thesis by (cases "index_of (map pk xs) (pk r)") auto
  qed
qed

lemma renumbered_skip:
  assumes d: "distinct (map pk tab)" and c: "c \<in> set tab" and n: "pk c \<notin> pk ` set xs"
    and p: "position c = int i"
  shows "renumbered (Suc i) xs tab = renumbered i (c # xs) tab"
  unfolding renumbered_def
proof (rule map_cong [OF refl])
  fix r assume r: "r \<in> set tab"
  show "(case index_of (map pk xs) (pk r) of None \<Rightarrow> r | Some j \<Rightarrow> r\<lparr>position := int (Suc i + j)\<rparr>)
      = (case index_of (map pk (c # xs)) (pk r) of None \<Rightarrow> r | Some j \<Rightarrow> r\<lparr>position := int (i + j)\<rparr>)"
  proof (cases "pk r = pk c")
    case True
    with d r c have "r = c" by (rule same_pk_same_row)
    moreover from n have "index_of (map pk xs) (pk c) = None" by (simp add: index_of_None)
    ultimately show ?thesis using p by simp
  next
    case False
    then show ?thesis by (cases "index_of (map pk xs) (pk r)") auto
  qed
qed

lemma misplaced_Nil [simp]: "misplaced i [] = []"
  by (simp add: misplaced_def)

lemma upt_shift: "[i..<i + Suc n] = i # [Suc i..<Suc i + n]"
  by (subst upt_conv_Cons) simp_all

lemma misplaced_Cons:
  "misplaced i (c # xs) = (if position c \<noteq> int i then [(i, c)] else []) @ misplaced (Suc i) xs"
  unfolding misplaced_def length_Cons upt_shift by simp

lemma misplaced_append:
  "misplaced i (xs @ ys) = misplaced i xs @ misplaced (i + length xs) ys"
  by (induction xs arbitrary: i) (simp_all add: misplaced_Cons)

lemma misplaced_empty_iff:
  "misplaced i xs = [] \<longleftrightarrow> map position xs = map int [i..<i + length xs]"
proof (induction xs arbitrary: i)
  case Nil
  then show ?case by simp
next
  case (Cons c xs)
  have "map int [i..<i + length (c # xs)] = int i # map int [Suc i..<Suc i + length xs]"
    unfolding length_Cons upt_shift by simp
  with Cons show ?case by (simp add: misplaced_Cons)
qed

lemma category_move_loop_result:
  assumes "distinct (map pk (categories st))" and "set xs \<subseteq> set (categories st)"
    and "distinct (map pk xs)"
  shows "category_move_loop rq i xs st = st\<lparr>
           categories := renumbered i xs (categories st),
           log_entries := log_entries st @
             map (\<lambda>(j, c). LogEntry (CategoryObj (pk c)) ''pretix.event.category.reordered'' (user rq)
                    [(''position'', PyInt (int j))]) (misplaced i xs),
           writes := writes st @ map (\<lambda>(j, c). SaveRow (CategoryObj (pk c)) None) (misplaced i xs)\<rparr>"
  using assms
proof (induction xs arbitrary: i st)
  case Nil
  then show ?case by (simp add: renumbered_def)
next
  case (Cons c xs)
  from Cons.prems(2) have cin: "c \<in> set (categories st)" and sub: "set xs \<subseteq> set (categories st)"
    by simp_all
  from Cons.prems(3) have notin: "pk c \<notin> pk ` set xs" and dxs: "distinct (map pk xs)" by simp_all
  show ?case
  proof (cases "position c \<noteq> int i")
    case True
    let ?st1 = "log_action (CategoryObj (pk c)) ''pretix.event.category.reordered'' (user rq)
                  [(''position'', PyInt (int i))]
                  (st\<lparr>categories := save_all (c\<lparr>position := int i\<rparr>) (categories st),
                      writes := writes st @ [SaveRow (CategoryObj (pk c)) None]\<rparr>)"
    have tab1: "categories ?st1 = save_all (c\<lparr>position := int i\<rparr>) (categories st)"
      by (simp add: log_action_def)
    have d1: "distinct (map pk (categories ?st1))"
      using Cons.prems(1) by (simp only: tab1 map_pk_save_all)
    have sub1: "set xs \<subseteq> set (categories ?st1)"
    proof
      fix x assume x: "x \<in> set xs"
      then have "pk x \<in> pk ` set xs" by (rule imageI)
      with notin have "pk x \<noteq> pk (c\<lparr>position := int i\<rparr>)" by auto
      with sub x show "x \<in> set (categories ?st1)"
        unfolding tab1 by (intro save_all_other) auto
    qed
    from True have "category_move_loop rq i (c # xs) st = category_move_loop rq (Suc i) xs ?st1"
      by simp
    also note Cons.IH [OF d1 sub1 dxs]
    finally show ?thesis
      using True renumbered_step [OF Cons.prems(1) cin notin, of i]
      by (simp add: tab1 misplaced_Cons log_action_def)
  next
    case False
    then have "category_move_loop rq i (c # xs) st = category_move_loop rq (Suc i) xs st" by simp
    also note Cons.IH [OF Cons.prems(1) sub dxs]
    finally show ?thesis
      using False renumbered_skip [OF Cons.prems(1) cin notin, of i]
      by (simp add: misplaced_Cons)
  qed
qed

lemma item_move_loop_result:
  assumes "distinct (map pk (items st))" and "set xs \<subseteq> set (items st)"
    and "distinct (map pk xs)"
  shows "item_move_loop rq i xs st = st\<lparr>
           items := renumbered i xs (items st),
           log_entries := log_entries st @
             map (\<lambda>(j, c). LogEntry (ItemObj (pk c)) ''pretix.event.item.reordered'' (user rq)
                    [(''position'', PyInt (int j))]) (misplaced i xs),
           writes := writes st @ map (\<lambda>(j, c). SaveRow (ItemObj (pk c)) None) (misplaced i xs)\<rparr>"
  using assms
proof (induction xs arbitrary: i st)
  case Nil
  then show ?case by (simp add: renumbered_def)
next
  case (Cons c xs)
  from Cons.prems(2) have cin: "c \<in> set (items st)" and sub: "set xs \<subseteq> set (items st)"
    by simp_all
  from Cons.prems(3) have notin: "pk c \<notin> pk ` set xs" and dxs: "distinct (map pk xs)" by simp_all
  show ?case
  proof (cases "position c \<noteq> int i")
    case True
    let ?st1 = "log_action (ItemObj (pk c)) ''pretix.event.item.reordered'' (user rq)
                  [(''position'', PyInt (int i))]
                  (st\<lparr>items := save_all (c\<lparr>position := int i\<rparr>) (items st),
                      writes := writes st @ [SaveRow (ItemObj (pk c)) None]\<rparr>)"
    have tab1: "items ?st1 = save_all (c\<lparr>position := int i\<rparr>) (items st)"
      by (simp add: log_action_def)
    have d1: "distinct (map pk (items ?st1))"
      using Cons.prems(1) by (simp only: tab1 map_pk_save_all)
    have sub1: "set xs \<subseteq> set (items ?st1)"
    proof
      fix x assume x: "x \<in> set xs"
      then have "pk x \<in> pk ` set xs" by (rule imageI)
      with notin have "pk x \<noteq> pk (c\<lparr>position := int i\<rparr>)" by auto
      with sub x show "x \<in> set (items ?st1)"
        unfolding tab1 by (intro save_all_other) auto
    qed
    from True have "item_move_loop rq i (c # xs) st = item_move_loop rq (Suc i) xs ?st1"
      by simp
    also note Cons.IH [OF d1 sub1 dxs]
    finally show ?thesis
      using True renumbered_step [OF Cons.prems(1) cin notin, of i]
      by (simp add: tab1 misplaced_Cons log_action_def)
  next
    case False
    then have "item_move_loop rq i (c # xs) st = item_move_loop rq (Suc i) xs st" by simp
    also note Cons.IH [OF Cons.prems(1) sub dxs]
    finally show ?thesis
      using False renumbered_skip [OF Cons.prems(1) cin notin, of i]
      by (simp add: misplaced_Cons)
  qed
qed

lemma sorted_int_upt: "sorted (map int [i..<j])"
  by (simp add: sorted_map sorted_wrt_iff_nth_less)

lemma sorted_mset_unique: "sorted xs \<Longrightarrow> sorted ys \<Longrightarrow> mset xs = mset ys \<Longrightarrow> xs = (ys :: int list)"
  using properties_for_sort [of xs ys] sorted_sort_id [of ys] by simp

lemma contiguous_iff_mset:
  "contiguous tab \<longleftrightarrow> mset (map position tab) = mset (map int [0..<length tab])"
proof
  assume "contiguous tab"
  then have "mset (map position (sort_key position tab)) = mset (map int [0..<length tab])"
    by (simp only: contiguous_def)
  then show "mset (map position tab) = mset (map int [0..<length tab])" by simp
next
  assume a: "mset (map position tab) = mset (map int [0..<length tab])"
  have "sorted (map position (sort_key position tab))" by (rule sorted_sort_key)
  moreover have "mset (map position (sort_key position tab)) = mset (map int [0..<length tab])"
    using a by simp
  ultimately show "contiguous tab"
    unfolding contiguous_def using sorted_int_upt sorted_mset_unique by blast
qed

lemma distinct_below_mset:
  assumes "distinct ys" and "set ys \<subseteq> {0..<n}" and "length ys = n"
  shows "mset ys = mset [0..<n]"
proof -
  have "card (set ys) = n" using assms(1,3) distinct_card by blast
  then have "set ys = {0..<n}" using assms(2) by (intro card_subset_eq) simp_all
  then have "set ys = set [0..<n]" by simp
  then show ?thesis using assms(1) set_eq_iff_mset_eq_distinct [of ys "[0..<n]"] by simp
qed

text \<open>Every row of the table is in the list: the renumbered table is contiguous.\<close>

lemma renumbered_contiguous:
  assumes d: "distinct (map pk tab)" and cover: "pk ` set tab \<subseteq> pk ` set xs"
    and len: "length xs = length tab"
  shows "contiguous (renumbered 0 xs tab)"
proof -
  define f where "f r = the (index_of (map pk xs) (pk r))" for r :: "'a orderable_scheme"
  have idx: "index_of (map pk xs) (pk r) = Some (f r)" if "r \<in> set tab" for r
  proof -
    from that cover have "pk r \<in> set (map pk xs)" by auto
    then show ?thesis using index_of_None [of "map pk xs" "pk r"] by (auto simp: f_def)
  qed
  have pos: "map position (renumbered 0 xs tab) = map int (map f tab)"
    unfolding renumbered_def using idx by simp
  have inj: "inj_on f (set tab)"
  proof (rule inj_onI)
    fix x y assume x: "x \<in> set tab" and y: "y \<in> set tab" and e: "f x = f y"
    from idx [OF x] idx [OF y] e have "pk x = pk y" using index_of_inj by metis
    with d x y show "x = y" by (rule same_pk_same_row)
  qed
  from d have "distinct tab" by (simp add: distinct_map)
  with inj have dist: "distinct (map f tab)" by (simp add: distinct_map)
  have "set (map f tab) \<subseteq> {0..<length tab}"
  proof
    fix i assume "i \<in> set (map f tab)"
    then obtain r where r: "r \<in> set tab" and i: "i = f r" by auto
    from index_of_Some [OF idx [OF r]] len i show "i \<in> {0..<length tab}" by simp
  qed
  with dist have "mset (map f tab) = mset [0..<length tab]"
    by (intro distinct_below_mset) simp_all
  then have "mset (map int (map f tab)) = mset (map int [0..<length tab])"
    by (metis mset_map)
  moreover have "length (renumbered 0 xs tab) = length tab" by (simp add: renumbered_def)
  ultimately have "mset (map position (renumbered 0 xs tab)) = mset (map int [0..<length (renumbered 0 xs tab)])"
    using pos by (simp only:)
  then show ?thesis by (simp only: contiguous_iff_mset)
qed

lemma renumbered_filter:
  assumes "\<And>r p. P (r\<lparr>position := p\<rparr>) = P r"
  shows "filter P (renumbered i xs tab) = renumbered i xs (filter P tab)"
  unfolding renumbered_def filter_map
  by (rule arg_cong [where f = "map _"], rule filter_cong [OF refl])
     (simp add: assms split: option.split)

lemma renumbered_nth:
  assumes "distinct (map pk xs)" and "set xs \<subseteq> set tab" and "j < length xs"
  shows "(xs ! j)\<lparr>position := int (i + j)\<rparr> \<in> set (renumbered i xs tab)"
proof -
  from assms(1,3) have "index_of (map pk xs) (map pk xs ! j) = Some j"
    by (intro index_of_nth_distinct) simp_all
  with assms(3) have "index_of (map pk xs) (pk (xs ! j)) = Some j" by simp
  moreover from assms(2,3) have "xs ! j \<in> set tab" by auto
  ultimately show ?thesis unfolding renumbered_def by force
qed

lemma map_pk_renumbered [simp]: "map pk (renumbered i xs tab) = map pk tab"
  unfolding renumbered_def by (simp add: comp_def split: option.split cong: map_cong)

lemma length_swap_neighbour [simp]: "length (swap_neighbour i up xs) = length xs"
  by (simp add: swap_neighbour_def)

lemma swap_neighbour_up:
  "i \<noteq> 0 \<Longrightarrow> swap_neighbour i True xs = xs[i - 1 := xs ! i, i := xs ! (i - 1)]"
  by (simp add: swap_neighbour_def)

lemma swap_neighbour_down:
  "Suc i < length xs \<Longrightarrow> swap_neighbour i False xs = xs[Suc i := xs ! i, i := xs ! Suc i]"
  by (simp add: swap_neighbour_def)

lemma swap_neighbour_first: "swap_neighbour 0 True xs = xs"
  by (simp add: swap_neighbour_def)

lemma swap_neighbour_last: "Suc i = length xs \<Longrightarrow> swap_neighbour i False xs = xs"
  by (auto simp: swap_neighbour_def)

lemma mset_swap_neighbour:
  assumes i: "i < length xs"
  shows "mset (swap_neighbour i up xs) = mset xs"
proof (cases up)
  case True
  show ?thesis
  proof (cases "i = 0")
    case True
    with \<open>up\<close> show ?thesis by (simp add: swap_neighbour_first)
  next
    case False
    with i have "mset (xs[i - 1 := xs ! i, i := xs ! (i - 1)]) = mset xs"
      using mset_swap [of i xs "i - 1"] by simp
    with False \<open>up\<close> show ?thesis by (simp add: swap_neighbour_up)
  qed
next
  case False
  show ?thesis
  proof (cases "Suc i = length xs")
    case True
    with \<open>\<not> up\<close> show ?thesis by (simp add: swap_neighbour_last)
  next
    case F: False
    with i have lt: "Suc i < length xs" by simp
    with i have "mset (xs[Suc i := xs ! i, i := xs ! Suc i]) = mset xs"
      using mset_swap [of i xs "Suc i"] by simp
    with lt \<open>\<not> up\<close> show ?thesis by (simp add: swap_neighbour_down)
  qed
qed

lemma mset_moved_order: "mset (moved_order k up scope) = mset scope"
proof (cases "index_of (map pk (sort_key position scope)) k")
  case None
  then show ?thesis by (simp add: moved_order_def)
next
  case (Some i)
  from index_of_Some [OF Some] have "i < length (sort_key position scope)" by simp
  from mset_swap_neighbour [OF this] Some show ?thesis by (simp add: moved_order_def)
qed

lemma set_moved_order [simp]: "set (moved_order k up scope) = set scope"
  using mset_moved_order [of k up scope] by (metis set_mset_mset)

lemma length_moved_order [simp]: "length (moved_order k up scope) = length scope"
  using mset_moved_order [of k up scope] by (metis size_mset)

lemma distinct_pk_moved_order:
  "distinct (map pk scope) \<Longrightarrow> distinct (map pk (moved_order k up scope))"
proof -
  assume "distinct (map pk scope)"
  moreover have "mset (map pk (moved_order k up scope)) = mset (map pk scope)"
    by (simp add: mset_moved_order)
  ultimately show ?thesis by (metis mset_eq_imp_distinct_iff)
qed

lemma get_by_id_present:
  "k \<in> pk ` set tab \<Longrightarrow> \<exists>c. get_by_id tab k = Some c \<and> pk c = k \<and> c \<in> set tab"
  using get_by_id_None [of tab k] get_by_id_Some [of tab k] by (cases "get_by_id tab k") auto

lemma category_move_unfold:
  assumes d: "distinct (map pk (categories st))" and k: "k \<in> pk ` set (categories st)"
  shows "category_move rq k up st = (Inr (), st\<lparr>
           categories := renumbered 0 (moved_order k up (categories st)) (categories st),
           log_entries := log_entries st @
             map (\<lambda>(j, c). LogEntry (CategoryObj (pk c)) ''pretix.event.category.reordered'' (user rq)
                    [(''position'', PyInt (int j))]) (misplaced 0 (moved_order k up (categories st))),
           writes := writes st @ map (\<lambda>(j, c). SaveRow (CategoryObj (pk c)) None)
                       (misplaced 0 (moved_order k up (categories st)))\<rparr>)"
proof -
  from get_by_id_present [OF k] obtain c where c: "get_by_id (categories st) k = Some c" "pk c = k"
    by blast
  let ?cats = "sort_key position (categories st)"
  from k have "k \<in> set (map pk ?cats)" by simp
  then obtain i where i: "index_of (map pk ?cats) k = Some i"
    using index_of_None [of "map pk ?cats" k] by auto
  then have mo: "moved_order k up (categories st) = swap_neighbour i up ?cats"
    by (simp add: moved_order_def)
  have sub: "set (moved_order k up (categories st)) \<subseteq> set (categories st)" by simp
  note loop = category_move_loop_result [OF d sub distinct_pk_moved_order [OF d, of k up], of rq 0]
  from c i have "category_move rq k up st
      = (Inr (), category_move_loop rq 0 (swap_neighbour i up ?cats) st)"
    by (simp add: category_move_def Let_def)
  with loop mo show ?thesis by simp
qed

lemma item_move_unfold:
  assumes d: "distinct (map pk (items st))" and k: "k \<in> pk ` set (items st)"
  shows "item_move rq k up st = (Inr (), st\<lparr>
           items := renumbered 0 (moved_order k up (item_scope st k)) (items st),
           log_entries := log_entries st @
             map (\<lambda>(j, c). LogEntry (ItemObj (pk c)) ''pretix.event.item.reordered'' (user rq)
                    [(''position'', PyInt (int j))]) (misplaced 0 (moved_order k up (item_scope st k))),
           writes := writes st @ map (\<lambda>(j, c). SaveRow (ItemObj (pk c)) None)
                       (misplaced 0 (moved_order k up (item_scope st k)))\<rparr>)"
proof -
  from get_by_id_present [OF k] obtain c where c: "get_by_id (items st) k = Some c" "pk c = k"
    "c \<in> set (items st)" by blast
  let ?scope = "filter (\<lambda>r. category r = category c) (items st)"
  from c have sc: "item_scope st k = ?scope" by (simp add: item_scope_def)
  let ?its = "sort_key position ?scope"
  from c have "c \<in> set ?scope" by simp
  with c have "k \<in> set (map pk ?its)" by force
  then obtain i where i: "index_of (map pk ?its) k = Some i"
    using index_of_None [of "map pk ?its" k] by auto
  then have mo: "moved_order k up ?scope = swap_neighbour i up ?its"
    by (simp add: moved_order_def)
  have sub: "set (moved_order k up ?scope) \<subseteq> set (items st)" by auto
  from d have ds: "distinct (map pk ?scope)" by (rule distinct_map_filter)
  note loop = item_move_loop_result [OF d sub distinct_pk_moved_order [OF ds, of k up], of rq 0]
  from c i have "item_move rq k up st
      = (Inr (), item_move_loop rq 0 (swap_neighbour i up ?its) st)"
    by (simp add: item_move_def Let_def)
  with loop mo sc show ?thesis by simp
qed

lemma renumbered_placed:
  assumes m: "misplaced i xs = []" and d: "distinct (map pk tab)" and sub: "set xs \<subseteq> set tab"
  shows "renumbered i xs tab = tab"
  unfolding renumbered_def
proof (rule map_idI)
  fix r assume r: "r \<in> set tab"
  show "(case index_of (map pk xs) (pk r) of None \<Rightarrow> r | Some j \<Rightarrow> r\<lparr>position := int (i + j)\<rparr>) = r"
  proof (cases "index_of (map pk xs) (pk r)")
    case None
    then show ?thesis by simp
  next
    case (Some j)
    from index_of_Some [OF Some] have j: "j < length xs" by simp
    with index_of_Some [OF Some] have pkj: "pk (xs ! j) = pk r" by simp
    from j sub have "xs ! j \<in> set tab" by auto
    with d r pkj have rx: "r = xs ! j" by (intro same_pk_same_row [of tab]) simp_all
    from m have "map position xs = map int [i..<i + length xs]" by (simp add: misplaced_empty_iff)
    then have "map position xs ! j = map int [i..<i + length xs] ! j" by simp
    with j have "position (xs ! j) = int (i + j)" by simp
    with rx Some show ?thesis by simp
  qed
qed

lemma index_of_hd: "s \<noteq> [] \<Longrightarrow> index_of (map f s) (f (hd s)) = Some 0"
  by (cases s) simp_all

lemma index_of_last:
  assumes "distinct (map f s)" and "s \<noteq> []"
  shows "index_of (map f s) (f (last s)) = Some (length s - 1)"
proof -
  from assms(2) have lt: "length s - 1 < length (map f s)" by (cases s) simp_all
  from assms(2) have "map f s ! (length s - 1) = f (last s)"
    by (simp add: last_conv_nth)
  with index_of_nth_distinct [OF assms(1) lt] show ?thesis by simp
qed

lemma boundary_order:
  assumes b: "at_boundary k up scope" and d: "distinct (map pk scope)"
  shows "moved_order k up scope = sort_key position scope"
proof -
  define s where "s = sort_key position scope"
  from b have "scope \<noteq> []" by (simp add: at_boundary_def)
  then have "length s \<noteq> 0" by (simp add: s_def)
  then have ne: "s \<noteq> []" by (cases s) simp_all
  have ds: "distinct (map pk s)"
    unfolding s_def using d by (metis mset_eq_imp_distinct_iff mset_map mset_sort)
  show ?thesis
  proof (cases up)
    case True
    with b have "pk (hd s) = k" by (simp add: at_boundary_def s_def)
    with index_of_hd [OF ne, of pk] have "index_of (map pk s) k = Some 0" by simp
    with True show ?thesis by (simp add: moved_order_def swap_neighbour_first flip: s_def)
  next
    case False
    with b have "pk (last s) = k" by (simp add: at_boundary_def s_def)
    with index_of_last [OF ds ne] have i: "index_of (map pk s) k = Some (length s - 1)" by simp
    from ne have "Suc (length s - 1) = length s" by (cases s) simp_all
    from swap_neighbour_last [OF this] i False show ?thesis
      by (simp add: moved_order_def flip: s_def)
  qed
qed

lemma misplaced_sorted_iff: "misplaced 0 (sort_key position scope) = [] \<longleftrightarrow> contiguous scope"
  by (simp add: misplaced_empty_iff contiguous_def)

lemma category_move_renumbers:
  assumes d: "distinct (map pk (categories st))" and k: "k \<in> pk ` set (categories st)"
  shows "\<exists>st'. category_move rq k up st = (Inr (), st')
       \<and> map pk (categories st') = map pk (categories st)
       \<and> contiguous (categories st')
       \<and> (\<forall>j < length (categories st).
             (moved_order k up (categories st) ! j)\<lparr>position := int j\<rparr> \<in> set (categories st'))
       \<and> log_entries st' = log_entries st @
             map (\<lambda>(j, c). LogEntry (CategoryObj (pk c)) ''pretix.event.category.reordered'' (user rq)
                    [(''position'', PyInt (int j))]) (misplaced 0 (moved_order k up (categories st)))
       \<and> writes st' = writes st @ map (\<lambda>(j, c). SaveRow (CategoryObj (pk c)) None)
                       (misplaced 0 (moved_order k up (categories st)))
       \<and> items st' = items st \<and> questions st' = questions st \<and> settings st' = settings st
       \<and> (st' = st \<longleftrightarrow> misplaced 0 (moved_order k up (categories st)) = [])
       \<and> (at_boundary k up (categories st) \<longrightarrow> (st' = st \<longleftrightarrow> contiguous (categories st)))"
proof -
  let ?L = "moved_order k up (categories st)"
  let ?st' = "st\<lparr>categories := renumbered 0 ?L (categories st),
           log_entries := log_entries st @
             map (\<lambda>(j, c). LogEntry (CategoryObj (pk c)) ''pretix.event.category.reordered'' (user rq)
                    [(''position'', PyInt (int j))]) (misplaced 0 ?L),
           writes := writes st @ map (\<lambda>(j, c). SaveRow (CategoryObj (pk c)) None) (misplaced 0 ?L)\<rparr>"
  have run: "category_move rq k up st = (Inr (), ?st')" by (rule category_move_unfold [OF d k])
  have cont: "contiguous (categories ?st')"
    using renumbered_contiguous [OF d, of ?L] by simp
  have nth: "\<forall>j < length (categories st). (?L ! j)\<lparr>position := int j\<rparr> \<in> set (categories ?st')"
    using renumbered_nth [OF distinct_pk_moved_order [OF d, of k up], of "categories st" _ 0] by simp
  have same: "?st' = st \<longleftrightarrow> misplaced 0 ?L = []"
  proof
    assume "?st' = st"
    then have "log_entries ?st' = log_entries st" by (rule arg_cong)
    then show "misplaced 0 ?L = []" by simp
  next
    assume m: "misplaced 0 ?L = []"
    have "renumbered 0 ?L (categories st) = categories st"
      by (rule renumbered_placed [OF m d]) simp
    with m show "?st' = st" by simp
  qed
  have bnd: "?st' = st \<longleftrightarrow> contiguous (categories st)" if "at_boundary k up (categories st)"
    using same boundary_order [OF that d] by (simp add: misplaced_sorted_iff)
  from run cont nth same bnd show ?thesis
    by (intro exI [of _ ?st']) simp
qed

lemma find_map_same:
  "(\<And>x. P (g x) = P x) \<Longrightarrow> find P (map g xs) = map_option g (find P xs)"
  by (induction xs) simp_all

lemma get_by_id_renumbered:
  "get_by_id (renumbered i xs tab) k =
   map_option (\<lambda>r. case index_of (map pk xs) (pk r) of Some j \<Rightarrow> r\<lparr>position := int (i + j)\<rparr> | None \<Rightarrow> r)
     (get_by_id tab k)"
  unfolding get_by_id_def renumbered_def
  by (rule find_map_same) (simp split: option.split)

lemma map_category_renumbered [simp]: "map category (renumbered i xs tab) = map category tab"
  unfolding renumbered_def by (simp add: comp_def split: option.split cong: map_cong)

lemma renumbered_outside:
  assumes d: "distinct (map pk tab)" and r: "r \<in> set tab" and sub: "set xs \<subseteq> set tab"
    and out: "r \<notin> set xs"
  shows "r \<in> set (renumbered i xs tab)"
proof -
  have "pk r \<notin> set (map pk xs)"
  proof
    assume "pk r \<in> set (map pk xs)"
    then obtain x where x: "x \<in> set xs" and e: "pk x = pk r" by auto
    with sub have "x \<in> set tab" by auto
    with d r e have "r = x" by (intro same_pk_same_row [of tab]) simp_all
    with x out show False by simp
  qed
  then have "index_of (map pk xs) (pk r) = None" by (simp add: index_of_None)
  with r show ?thesis unfolding renumbered_def by force
qed

lemma item_scope_renumbered:
  assumes k: "k \<in> pk ` set (items st)"
  shows "item_scope (st\<lparr>items := renumbered i xs (items st), log_entries := l, writes := w\<rparr>) k
       = renumbered i xs (item_scope st k)"
proof -
  from get_by_id_present [OF k] obtain c where c: "get_by_id (items st) k = Some c" by blast
  have "filter (\<lambda>r. category r = category c) (renumbered i xs (items st))
      = renumbered i xs (filter (\<lambda>r. category r = category c) (items st))"
    by (rule renumbered_filter) simp
  with c show ?thesis
    by (simp add: item_scope_def get_by_id_renumbered split: option.split)
qed

lemma item_scope_subset: "set (item_scope st k) \<subseteq> set (items st)"
  by (auto simp: item_scope_def split: option.split)

lemma distinct_item_scope: "distinct (map pk (items st)) \<Longrightarrow> distinct (map pk (item_scope st k))"
  by (auto simp: item_scope_def distinct_map_filter split: option.split)

lemma item_move_renumbers:
  assumes d: "distinct (map pk (items st))" and k: "k \<in> pk ` set (items st)"
  shows "\<exists>st'. item_move rq k up st = (Inr (), st')
       \<and> map pk (items st') = map pk (items st)
       \<and> map category (items st') = map category (items st)
       \<and> (\<forall>r\<in>set (items st). r \<notin> set (item_scope st k) \<longrightarrow> r \<in> set (items st'))
       \<and> contiguous (item_scope st' k)
       \<and> (\<forall>j < length (item_scope st k).
             (moved_order k up (item_scope st k) ! j)\<lparr>position := int j\<rparr> \<in> set (items st'))
       \<and> log_entries st' = log_entries st @
             map (\<lambda>(j, c). LogEntry (ItemObj (pk c)) ''pretix.event.item.reordered'' (user rq)
                    [(''position'', PyInt (int j))]) (misplaced 0 (moved_order k up (item_scope st k)))
       \<and> writes st' = writes st @ map (\<lambda>(j, c). SaveRow (ItemObj (pk c)) None)
                       (misplaced 0 (moved_order k up (item_scope st k)))
       \<and> categories st' = categories st \<and> questions st' = questions st \<and> settings st' = settings st
       \<and> (st' = st \<longleftrightarrow> misplaced 0 (moved_order k up (item_scope st k)) = [])
       \<and> (at_boundary k up (item_scope st k) \<longrightarrow> (st' = st \<longleftrightarrow> contiguous (item_scope st k)))"
proof -
  let ?S = "item_scope st k"
  let ?L = "moved_order k up ?S"
  let ?st' = "st\<lparr>items := renumbered 0 ?L (items st),
           log_entries := log_entries st @
             map (\<lambda>(j, c). LogEntry (ItemObj (pk c)) ''pretix.event.item.reordered'' (user rq)
                    [(''position'', PyInt (int j))]) (misplaced 0 ?L),
           writes := writes st @ map (\<lambda>(j, c). SaveRow (ItemObj (pk c)) None) (misplaced 0 ?L)\<rparr>"
  have run: "item_move rq k up st = (Inr (), ?st')" by (rule item_move_unfold [OF d k])
  note dS = distinct_item_scope [OF d, of k]
  have subL: "set ?L \<subseteq> set (items st)" using item_scope_subset [of st k] by simp
  have "contiguous (renumbered 0 ?L ?S)"
    using renumbered_contiguous [OF dS, of ?L] by simp
  then have cont: "contiguous (item_scope ?st' k)" by (simp only: item_scope_renumbered [OF k])
  have out: "\<forall>r\<in>set (items st). r \<notin> set ?S \<longrightarrow> r \<in> set (items ?st')"
    using renumbered_outside [OF d _ subL, of _ 0] by simp
  have nth: "\<forall>j < length ?S. (?L ! j)\<lparr>position := int j\<rparr> \<in> set (items ?st')"
    using renumbered_nth [OF distinct_pk_moved_order [OF dS, of k up] subL, of _ 0] by simp
  have same: "?st' = st \<longleftrightarrow> misplaced 0 ?L = []"
  proof
    assume "?st' = st"
    then have "log_entries ?st' = log_entries st" by (rule arg_cong)
    then show "misplaced 0 ?L = []" by simp
  next
    assume m: "misplaced 0 ?L = []"
    have "renumbered 0 ?L (items st) = items st"
      by (rule renumbered_placed [OF m d subL])
    with m show "?st' = st" by simp
  qed
  have bnd: "?st' = st \<longleftrightarrow> contiguous ?S" if "at_boundary k up ?S"
    using same boundary_order [OF that dS] by (simp add: misplaced_sorted_iff)
  from run cont out nth same bnd show ?thesis
    by (intro exI [of _ ?st']) simp
qed

lemma swap_adjacent:
  assumes "Suc j < length xs"
  shows "xs[j := xs ! Suc j, Suc j := xs ! j] = take j xs @ [xs ! Suc j, xs ! j] @ drop (Suc (Suc j)) xs"
proof (rule nth_equalityI)
  show "length (xs[j := xs ! Suc j, Suc j := xs ! j])
      = length (take j xs @ [xs ! Suc j, xs ! j] @ drop (Suc (Suc j)) xs)"
    using assms by simp
next
  fix m assume "m < length (xs[j := xs ! Suc j, Suc j := xs ! j])"
  then have m: "m < length xs" by simp
  consider "m < j" | "m = j" | "m = Suc j" | "Suc (Suc j) \<le> m" by linarith
  then show "xs[j := xs ! Suc j, Suc j := xs ! j] ! m
      = (take j xs @ [xs ! Suc j, xs ! j] @ drop (Suc (Suc j)) xs) ! m"
  proof cases
    case 1
    with assms m show ?thesis by (simp add: nth_append)
  next
    case 2
    with assms m show ?thesis by (simp add: nth_append)
  next
    case 3
    with assms m show ?thesis by (simp add: nth_append)
  next
    case 4
    then obtain d where d: "m = Suc (Suc j) + d" using le_Suc_ex by blast
    with assms m show ?thesis by (simp add: nth_append)
  qed
qed

lemma misplaced_swap_adjacent:
  assumes c: "map position xs = map int [0..<length xs]" and j: "Suc j < length xs"
  shows "misplaced 0 (xs[j := xs ! Suc j, Suc j := xs ! j]) = [(j, xs ! Suc j), (Suc j, xs ! j)]"
proof -
  define A where "A = take j xs"
  define B where "B = drop (Suc (Suc j)) xs"
  have p: "position (xs ! m) = int m" if "m < length xs" for m
  proof -
    from c have "map position xs ! m = map int [0..<length xs] ! m" by simp
    with that show ?thesis by simp
  qed
  from j have lA: "length A = j" by (simp add: A_def)
  from j have lB: "Suc (Suc j) + length B = length xs" by (simp add: B_def)
  have "map position A = take j (map position xs)" by (simp add: A_def take_map)
  also have "\<dots> = take j (map int [0..<length xs])" by (simp only: c)
  also have "\<dots> = map int [0..<0 + length A]" using j by (simp add: take_map lA)
  finally have a: "misplaced 0 A = []" by (simp only: misplaced_empty_iff)
  have "map position B = drop (Suc (Suc j)) (map position xs)" by (simp add: B_def drop_map)
  also have "\<dots> = drop (Suc (Suc j)) (map int [0..<length xs])" by (simp only: c)
  also have "\<dots> = map int [Suc (Suc j)..<length xs]" by (simp add: drop_map)
  also have "\<dots> = map int [Suc (Suc j)..<Suc (Suc j) + length B]" by (simp only: lB)
  finally have b: "misplaced (Suc (Suc j)) B = []" by (simp only: misplaced_empty_iff)
  from j have pj: "position (xs ! j) = int j" and ps: "position (xs ! Suc j) = int (Suc j)"
    by (simp_all only: p Suc_lessD)
  have "xs[j := xs ! Suc j, Suc j := xs ! j] = A @ [xs ! Suc j, xs ! j] @ B"
    unfolding A_def B_def by (rule swap_adjacent [OF j])
  then show ?thesis
    by (simp add: misplaced_append misplaced_Cons a b lA pj ps)
qed

lemma renumbered_swap_adjacent:
  assumes d: "distinct (map pk tab)" and sub: "set xs \<subseteq> set tab" and dx: "distinct (map pk xs)"
    and c: "map position xs = map int [0..<length xs]" and j: "Suc j < length xs"
  shows "renumbered 0 (xs[j := xs ! Suc j, Suc j := xs ! j]) tab
       = map (\<lambda>r. if pk r = pk (xs ! j) then r\<lparr>position := int (Suc j)\<rparr>
                   else if pk r = pk (xs ! Suc j) then r\<lparr>position := int j\<rparr> else r) tab"
  unfolding renumbered_def
proof (rule map_cong [OF refl])
  let ?L = "xs[j := xs ! Suc j, Suc j := xs ! j]"
  fix r assume r: "r \<in> set tab"
  from j have j': "j < length xs" by simp
  have dL: "distinct (map pk ?L)"
  proof -
    have "mset ?L = mset xs" using mset_swap [of "Suc j" xs j] j by simp
    then have "mset (map pk ?L) = mset (map pk xs)" by simp
    with dx show ?thesis by (metis mset_eq_imp_distinct_iff)
  qed
  have nthL: "index_of (map pk ?L) (pk (?L ! m)) = Some m" if "m < length xs" for m
    using index_of_nth_distinct [OF dL, of m] that by simp
  have p: "position (xs ! m) = int m" if "m < length xs" for m
  proof -
    from c have "map position xs ! m = map int [0..<length xs] ! m" by simp
    with that show ?thesis by simp
  qed
  have ne: "pk (xs ! j) \<noteq> pk (xs ! Suc j)"
    using dx j j' nth_eq_iff_index_eq [of "map pk xs" j "Suc j"] by simp
  show "(case index_of (map pk ?L) (pk r) of None \<Rightarrow> r | Some m \<Rightarrow> r\<lparr>position := int (0 + m)\<rparr>)
      = (if pk r = pk (xs ! j) then r\<lparr>position := int (Suc j)\<rparr>
         else if pk r = pk (xs ! Suc j) then r\<lparr>position := int j\<rparr> else r)"
  proof (cases "pk r = pk (xs ! j)")
    case True
    from j have "?L ! Suc j = xs ! j" by simp
    with nthL [OF j] have "index_of (map pk ?L) (pk (xs ! j)) = Some (Suc j)" by simp
    with True show ?thesis by simp
  next
    case False
    show ?thesis
    proof (cases "pk r = pk (xs ! Suc j)")
      case True
      from j j' have "?L ! j = xs ! Suc j" by simp
      with nthL [OF j'] have "index_of (map pk ?L) (pk (xs ! Suc j)) = Some j" by simp
      with True False ne show ?thesis by simp
    next
      case F2: False
      show ?thesis
      proof (cases "index_of (map pk ?L) (pk r)")
        case None
        with False F2 show ?thesis by simp
      next
        case (Some m)
        from index_of_Some [OF Some] have m: "m < length xs" by simp
        with index_of_Some [OF Some] have pm: "pk (?L ! m) = pk r" by simp
        with False F2 j have "m \<noteq> j" "m \<noteq> Suc j" by auto
        with m have Lm: "?L ! m = xs ! m" by simp
        from m sub have "xs ! m \<in> set tab" by auto
        with d r pm Lm have "r = xs ! m" by (intro same_pk_same_row [of tab]) simp_all
        with p [OF m] have "position r = int m" by simp
        with Some False F2 show ?thesis by simp
      qed
    qed
  qed
qed

lemma moved_order_swap:
  assumes d: "distinct (map pk tab)" and sub: "set scope \<subseteq> set tab"
    and ds: "distinct (map pk scope)" and cont: "contiguous scope"
    and c: "c \<in> set scope" and nb: "\<not> at_boundary (pk c) up scope"
  shows "\<exists>nb\<in>set scope. position nb = (if up then position c - 1 else position c + 1)
       \<and> renumbered 0 (moved_order (pk c) up scope) tab
           = map (\<lambda>r. if pk r = pk c then r\<lparr>position := position nb\<rparr>
                       else if pk r = pk nb then r\<lparr>position := position c\<rparr> else r) tab
       \<and> misplaced 0 (moved_order (pk c) up scope)
           = (if up then [(nat (position nb), c), (nat (position c), nb)]
              else [(nat (position c), nb), (nat (position nb), c)])"
proof -
  define s where "s = sort_key position scope"
  have sets: "set s = set scope" and lens: "length s = length scope" by (simp_all add: s_def)
  from cont have cs: "map position s = map int [0..<length s]"
    by (simp add: contiguous_def s_def)
  have dss: "distinct (map pk s)"
    unfolding s_def using ds by (metis mset_eq_imp_distinct_iff mset_map mset_sort)
  from sub sets have subs: "set s \<subseteq> set tab" by simp
  from c sets obtain i where i: "i < length s" and si: "s ! i = c"
    by (metis in_set_conv_nth)
  from c sets have ne: "s \<noteq> []" by auto
  have p: "position (s ! m) = int m" if "m < length s" for m
  proof -
    from cs have "map position s ! m = map int [0..<length s] ! m" by simp
    with that show ?thesis by simp
  qed
  from i have "index_of (map pk s) (map pk s ! i) = Some i"
    by (intro index_of_nth_distinct [OF dss]) simp
  with i si have idx: "index_of (map pk s) (pk c) = Some i" by simp
  then have mo: "moved_order (pk c) up scope = swap_neighbour i up s"
    by (simp add: moved_order_def flip: s_def)
  from p [OF i] si have pc: "position c = int i" by simp
  from c have "scope \<noteq> []" by auto
  with nb have nb': "if up then pk (hd s) \<noteq> pk c else pk (last s) \<noteq> pk c"
    by (simp add: at_boundary_def s_def split: if_splits)
  show ?thesis
  proof (cases up)
    case True
    have i0: "i \<noteq> 0"
    proof
      assume "i = 0"
      with si ne have "hd s = c" by (simp add: hd_conv_nth)
      with nb' True show False by simp
    qed
    define j where "j = i - 1"
    from i0 have ij: "i = Suc j" by (simp add: j_def)
    from i ij have jl: "Suc j < length s" by simp
    let ?nb = "s ! j"
    from jl sets have nbin: "?nb \<in> set scope" by (metis Suc_lessD nth_mem)
    from jl have pn: "position ?nb = int j" by (intro p) simp
    from mo True have "moved_order (pk c) up scope = swap_neighbour i True s" by simp
    also from swap_neighbour_up [OF i0, of s] ij
    have "swap_neighbour i True s = s[j := s ! Suc j, Suc j := s ! j]" by simp
    finally have L: "moved_order (pk c) up scope = s[j := s ! Suc j, Suc j := s ! j]" .
    have ne2: "pk c \<noteq> pk ?nb"
      using dss jl si ij nth_eq_iff_index_eq [of "map pk s" j "Suc j"] by auto
    have "renumbered 0 (moved_order (pk c) up scope) tab
        = map (\<lambda>r. if pk r = pk (s ! j) then r\<lparr>position := int (Suc j)\<rparr>
                   else if pk r = pk (s ! Suc j) then r\<lparr>position := int j\<rparr> else r) tab"
      unfolding L by (rule renumbered_swap_adjacent [OF d subs dss cs jl])
    also have "\<dots> = map (\<lambda>r. if pk r = pk c then r\<lparr>position := position ?nb\<rparr>
                       else if pk r = pk ?nb then r\<lparr>position := position c\<rparr> else r) tab"
      using ne2 si ij pn pc by (intro map_cong [OF refl]) auto
    finally have ren: "renumbered 0 (moved_order (pk c) up scope) tab
        = map (\<lambda>r. if pk r = pk c then r\<lparr>position := position ?nb\<rparr>
                       else if pk r = pk ?nb then r\<lparr>position := position c\<rparr> else r) tab" .
    have "misplaced 0 (moved_order (pk c) up scope) = [(j, s ! Suc j), (Suc j, s ! j)]"
      unfolding L by (rule misplaced_swap_adjacent [OF cs jl])
    with si ij pn pc have mis: "misplaced 0 (moved_order (pk c) up scope)
        = [(nat (position ?nb), c), (nat (position c), ?nb)]" by simp
    from pn pc ij have "position ?nb = position c - 1" by simp
    with nbin ren mis True show ?thesis by (intro bexI [of _ ?nb]) simp_all
  next
    case False
    have il: "Suc i < length s"
    proof (rule ccontr)
      assume "\<not> Suc i < length s"
      with i have "i = length s - 1" by simp
      with si ne have "last s = c" by (simp add: last_conv_nth)
      with nb' False show False by simp
    qed
    let ?nb = "s ! Suc i"
    from il sets have nbin: "?nb \<in> set scope" by (metis nth_mem)
    from il have pn: "position ?nb = int (Suc i)" by (intro p)
    from mo False have "moved_order (pk c) up scope = swap_neighbour i False s" by simp
    also from swap_neighbour_down [OF il]
    have "swap_neighbour i False s = s[Suc i := s ! i, i := s ! Suc i]" .
    also have "\<dots> = s[i := s ! Suc i, Suc i := s ! i]"
      by (rule list_update_swap) simp
    finally have L: "moved_order (pk c) up scope = s[i := s ! Suc i, Suc i := s ! i]" .
    have "renumbered 0 (moved_order (pk c) up scope) tab
        = map (\<lambda>r. if pk r = pk (s ! i) then r\<lparr>position := int (Suc i)\<rparr>
                   else if pk r = pk (s ! Suc i) then r\<lparr>position := int i\<rparr> else r) tab"
      unfolding L by (rule renumbered_swap_adjacent [OF d subs dss cs il])
    with si pn pc have ren: "renumbered 0 (moved_order (pk c) up scope) tab
        = map (\<lambda>r. if pk r = pk c then r\<lparr>position := position ?nb\<rparr>
                       else if pk r = pk ?nb then r\<lparr>position := position c\<rparr> else r) tab"
      by simp
    have "misplaced 0 (moved_order (pk c) up scope) = [(i, s ! Suc i), (Suc i, s ! i)]"
      unfolding L by (rule misplaced_swap_adjacent [OF cs il])
    with si pn pc have mis: "misplaced 0 (moved_order (pk c) up scope)
        = [(nat (position c), ?nb), (nat (position ?nb), c)]" by simp
    from pn pc have "position ?nb = position c + 1" by simp
    with nbin ren mis False show ?thesis by (intro bexI [of _ ?nb]) simp_all
  qed
qed

section \<open>Single-step moves\<close>

lemma category_move_gap:
  "at_boundary 1 True (categories gap_categories)
 \<and> category_move form_post 1 True gap_categories = (Inr (), gap_categories\<lparr>
      categories := [\<lparr>pk = 1, position = 0\<rparr>, \<lparr>pk = 2, position = 1\<rparr>],
      log_entries :=
        [LogEntry (CategoryObj 1) ''pretix.event.category.reordered'' 7 [(''position'', PyInt 0)],
         LogEntry (CategoryObj 2) ''pretix.event.category.reordered'' 7 [(''position'', PyInt 1)]],
      writes := [SaveRow (CategoryObj 1) None, SaveRow (CategoryObj 2) None]\<rparr>)"
  by code_simp

lemma item_move_tied:
  "at_boundary 2 False (item_scope tied_items 2)
 \<and> item_move form_post 2 False tied_items = (Inr (), tied_items\<lparr>
      items := [\<lparr>pk = 1, position = 0, category = None\<rparr>, \<lparr>pk = 2, position = 1, category = None\<rparr>,
                \<lparr>pk = 3, position = 0, category = Some 5\<rparr>],
      log_entries :=
        [LogEntry (ItemObj 1) ''pretix.event.item.reordered'' 7 [(''position'', PyInt 0)],
         LogEntry (ItemObj 2) ''pretix.event.item.reordered'' 7 [(''position'', PyInt 1)]],
      writes := [SaveRow (ItemObj 1) None, SaveRow (ItemObj 2) None]\<rparr>)"
  by code_simp

lemma contiguous_examples:
  "contiguous (categories three_categories)" "\<not> contiguous (categories gap_categories)"
  "contiguous (item_scope three_items 1)" "\<not> contiguous (item_scope tied_items 2)"
  by code_simp+

text \<open>
  C10. A move of an existing category or item succeeds and leaves the positions of
  the entity's scope (all categories; the items of the item's category) at exactly
  0, ..., n-1, row \<open>j\<close> of the list order after the exchange at position \<open>j\<close>; the
  other tables, the items outside the scope and the categories of the items are as
  before. Saved and logged are exactly the rows whose stored position differed from
  their index in that order, so the state is unchanged if and only if there is no such
  row; in particular a move at the boundary leaves the state and the audit log
  untouched if and only if the positions of the scope were 0, ..., n-1 already.
\<close>

theorem move_renumbers_scope:
  "(distinct (map pk (categories st1)) \<and> k1 \<in> pk ` set (categories st1) \<longrightarrow>
     (\<exists>st'. category_move rq1 k1 up1 st1 = (Inr (), st')
       \<and> map pk (categories st') = map pk (categories st1)
       \<and> contiguous (categories st')
       \<and> (\<forall>j < length (categories st1).
             (moved_order k1 up1 (categories st1) ! j)\<lparr>position := int j\<rparr> \<in> set (categories st'))
       \<and> log_entries st' = log_entries st1 @
             map (\<lambda>(j, c). LogEntry (CategoryObj (pk c)) ''pretix.event.category.reordered'' (user rq1)
                    [(''position'', PyInt (int j))]) (misplaced 0 (moved_order k1 up1 (categories st1)))
       \<and> writes st' = writes st1 @ map (\<lambda>(j, c). SaveRow (CategoryObj (pk c)) None)
                       (misplaced 0 (moved_order k1 up1 (categories st1)))
       \<and> items st' = items st1 \<and> questions st' = questions st1 \<and> settings st' = settings st1
       \<and> (st' = st1 \<longleftrightarrow> misplaced 0 (moved_order k1 up1 (categories st1)) = [])
       \<and> (at_boundary k1 up1 (categories st1) \<longrightarrow> (st' = st1 \<longleftrightarrow> contiguous (categories st1)))))
 \<and> (distinct (map pk (items st2)) \<and> k2 \<in> pk ` set (items st2) \<longrightarrow>
     (\<exists>st'. item_move rq2 k2 up2 st2 = (Inr (), st')
       \<and> map pk (items st') = map pk (items st2)
       \<and> map category (items st') = map category (items st2)
       \<and> (\<forall>r\<in>set (items st2). r \<notin> set (item_scope st2 k2) \<longrightarrow> r \<in> set (items st'))
       \<and> contiguous (item_scope st' k2)
       \<and> (\<forall>j < length (item_scope st2 k2).
             (moved_order k2 up2 (item_scope st2 k2) ! j)\<lparr>position := int j\<rparr> \<in> set (items st'))
       \<and> log_entries st' = log_entries st2 @
             map (\<lambda>(j, c). LogEntry (ItemObj (pk c)) ''pretix.event.item.reordered'' (user rq2)
                    [(''position'', PyInt (int j))]) (misplaced 0 (moved_order k2 up2 (item_scope st2 k2)))
       \<and> writes st' = writes st2 @ map (\<lambda>(j, c). SaveRow (ItemObj (pk c)) None)
                       (misplaced 0 (moved_order k2 up2 (item_scope st2 k2)))
       \<and> categories st' = categories st2 \<and> questions st' = questions st2 \<and> settings st' = settings st2
       \<and> (st' = st2 \<longleftrightarrow> misplaced 0 (moved_order k2 up2 (item_scope st2 k2)) = [])
       \<and> (at_boundary k2 up2 (item_scope st2 k2) \<longrightarrow> (st' = st2 \<longleftrightarrow> contiguous (item_scope st2 k2)))))"
  using category_move_renumbers [of st1 k1 rq1 up1] item_move_renumbers [of st2 k2 rq2 up2]
  by blast

theorem move_renumbers_scope_witness:
  "distinct (map pk (categories gap_categories)) \<and> 1 \<in> pk ` set (categories gap_categories)
 \<and> at_boundary 1 True (categories gap_categories) \<and> \<not> contiguous (categories gap_categories)
 \<and> fst (category_move form_post 1 True gap_categories) = Inr ()
 \<and> contiguous (categories (snd (category_move form_post 1 True gap_categories)))
 \<and> snd (category_move form_post 1 True gap_categories) \<noteq> gap_categories
 \<and> distinct (map pk (items tied_items)) \<and> 2 \<in> pk ` set (items tied_items)
 \<and> at_boundary 2 False (item_scope tied_items 2) \<and> \<not> contiguous (item_scope tied_items 2)
 \<and> fst (item_move form_post 2 False tied_items) = Inr ()
 \<and> contiguous (item_scope (snd (item_move form_post 2 False tied_items)) 2)
 \<and> snd (item_move form_post 2 False tied_items) \<noteq> tied_items"
proof -
  have c: "distinct (map pk (categories gap_categories))" "1 \<in> pk ` set (categories gap_categories)"
    by (simp_all add: gap_categories_def empty_event_def)
  have i: "distinct (map pk (items tied_items))" "2 \<in> pk ` set (items tied_items)"
    by (simp_all add: tied_items_def empty_event_def)
  have bc: "at_boundary 1 True (categories gap_categories)" using category_move_gap by simp
  have bi: "at_boundary 2 False (item_scope tied_items 2)" using item_move_tied by simp
  note nc = contiguous_examples(2) and ni = contiguous_examples(4)
  from move_renumbers_scope [of gap_categories 1 form_post True tied_items 2 form_post False]
    c i
  obtain s1 s2 where s1: "category_move form_post 1 True gap_categories = (Inr (), s1)"
      "contiguous (categories s1)"
      "at_boundary 1 True (categories gap_categories) \<longrightarrow>
         (s1 = gap_categories \<longleftrightarrow> contiguous (categories gap_categories))"
    and s2: "item_move form_post 2 False tied_items = (Inr (), s2)"
      "contiguous (item_scope s2 2)"
      "at_boundary 2 False (item_scope tied_items 2) \<longrightarrow>
         (s2 = tied_items \<longleftrightarrow> contiguous (item_scope tied_items 2))"
    by blast
  from s1 bc nc have "fst (category_move form_post 1 True gap_categories) = Inr ()"
    "contiguous (categories (snd (category_move form_post 1 True gap_categories)))"
    "snd (category_move form_post 1 True gap_categories) \<noteq> gap_categories"
    by simp_all
  moreover from s2 bi ni have "fst (item_move form_post 2 False tied_items) = Inr ()"
    "contiguous (item_scope (snd (item_move form_post 2 False tied_items)) 2)"
    "snd (item_move form_post 2 False tied_items) \<noteq> tied_items"
    by simp_all
  ultimately show ?thesis using c i bc bi nc ni by (simp only:) simp
qed

section \<open>Moves in a contiguous scope\<close>

lemma item_in_scope:
  assumes "distinct (map pk (items st))" and "c \<in> set (items st)"
  shows "item_scope st (pk c) = filter (\<lambda>r. category r = category c) (items st)
       \<and> c \<in> set (item_scope st (pk c))"
proof -
  from assms(2) have "pk c \<in> pk ` set (items st)" by simp
  from get_by_id_present [OF this] obtain c' where c': "get_by_id (items st) (pk c) = Some c'"
    "pk c' = pk c" "c' \<in> set (items st)" by blast
  with assms have "c' = c" by (intro same_pk_same_row [of "items st"]) simp_all
  with c' assms(2) show ?thesis by (simp add: item_scope_def)
qed

lemma category_move_contiguous:
  assumes d: "distinct (map pk (categories st))" and cont: "contiguous (categories st)"
    and c: "c \<in> set (categories st)"
  shows "(at_boundary (pk c) up (categories st) \<longrightarrow> category_move rq (pk c) up st = (Inr (), st))
       \<and> (\<not> at_boundary (pk c) up (categories st) \<longrightarrow>
            (\<exists>nb\<in>set (categories st). position nb = (if up then position c - 1 else position c + 1)
              \<and> category_move rq (pk c) up st = (Inr (), st\<lparr>
                  categories := map (\<lambda>r. if pk r = pk c then r\<lparr>position := position nb\<rparr>
                                         else if pk r = pk nb then r\<lparr>position := position c\<rparr> else r)
                                  (categories st),
                  log_entries := log_entries st @
                    map (\<lambda>(j, e). LogEntry (CategoryObj (pk e)) ''pretix.event.category.reordered''
                                     (user rq) [(''position'', PyInt (int j))])
                      (if up then [(nat (position nb), c), (nat (position c), nb)]
                       else [(nat (position c), nb), (nat (position nb), c)]),
                  writes := writes st @
                    map (\<lambda>(j, e). SaveRow (CategoryObj (pk e)) None)
                      (if up then [(nat (position nb), c), (nat (position c), nb)]
                       else [(nat (position c), nb), (nat (position nb), c)])\<rparr>)))"
proof (intro conjI impI)
  from c have k: "pk c \<in> pk ` set (categories st)" by simp
  {
    assume b: "at_boundary (pk c) up (categories st)"
    from category_move_renumbers [OF d k, of rq up] b cont
    show "category_move rq (pk c) up st = (Inr (), st)" by auto
  next
    assume nb: "\<not> at_boundary (pk c) up (categories st)"
    from moved_order_swap [OF d subset_refl d cont c nb]
    obtain nb where nbin: "nb \<in> set (categories st)"
      and pn: "position nb = (if up then position c - 1 else position c + 1)"
      and ren: "renumbered 0 (moved_order (pk c) up (categories st)) (categories st)
           = map (\<lambda>r. if pk r = pk c then r\<lparr>position := position nb\<rparr>
                       else if pk r = pk nb then r\<lparr>position := position c\<rparr> else r) (categories st)"
      and mis: "misplaced 0 (moved_order (pk c) up (categories st))
           = (if up then [(nat (position nb), c), (nat (position c), nb)]
              else [(nat (position c), nb), (nat (position nb), c)])"
      by blast
    from category_move_unfold [OF d k, of rq up]
    have "category_move rq (pk c) up st = (Inr (), st\<lparr>
                  categories := map (\<lambda>r. if pk r = pk c then r\<lparr>position := position nb\<rparr>
                                         else if pk r = pk nb then r\<lparr>position := position c\<rparr> else r)
                                  (categories st),
                  log_entries := log_entries st @
                    map (\<lambda>(j, e). LogEntry (CategoryObj (pk e)) ''pretix.event.category.reordered''
                                     (user rq) [(''position'', PyInt (int j))])
                      (if up then [(nat (position nb), c), (nat (position c), nb)]
                       else [(nat (position c), nb), (nat (position nb), c)]),
                  writes := writes st @
                    map (\<lambda>(j, e). SaveRow (CategoryObj (pk e)) None)
                      (if up then [(nat (position nb), c), (nat (position c), nb)]
                       else [(nat (position c), nb), (nat (position nb), c)])\<rparr>)"
      by (simp only: ren mis)
    with nbin pn
    show "\<exists>nb\<in>set (categories st). position nb = (if up then position c - 1 else position c + 1)
              \<and> category_move rq (pk c) up st = (Inr (), st\<lparr>
                  categories := map (\<lambda>r. if pk r = pk c then r\<lparr>position := position nb\<rparr>
                                         else if pk r = pk nb then r\<lparr>position := position c\<rparr> else r)
                                  (categories st),
                  log_entries := log_entries st @
                    map (\<lambda>(j, e). LogEntry (CategoryObj (pk e)) ''pretix.event.category.reordered''
                                     (user rq) [(''position'', PyInt (int j))])
                      (if up then [(nat (position nb), c), (nat (position c), nb)]
                       else [(nat (position c), nb), (nat (position nb), c)]),
                  writes := writes st @
                    map (\<lambda>(j, e). SaveRow (CategoryObj (pk e)) None)
                      (if up then [(nat (position nb), c), (nat (position c), nb)]
                       else [(nat (position c), nb), (nat (position nb), c)])\<rparr>)"
      by blast
  }
qed

lemma item_move_contiguous:
  assumes d: "distinct (map pk (items st))" and cont: "contiguous (item_scope st (pk c))"
    and c: "c \<in> set (items st)"
  shows "(at_boundary (pk c) up (item_scope st (pk c)) \<longrightarrow> item_move rq (pk c) up st = (Inr (), st))
       \<and> (\<not> at_boundary (pk c) up (item_scope st (pk c)) \<longrightarrow>
            (\<exists>nb\<in>set (item_scope st (pk c)).
                position nb = (if up then position c - 1 else position c + 1)
              \<and> item_move rq (pk c) up st = (Inr (), st\<lparr>
                  items := map (\<lambda>r. if pk r = pk c then r\<lparr>position := position nb\<rparr>
                                    else if pk r = pk nb then r\<lparr>position := position c\<rparr> else r)
                             (items st),
                  log_entries := log_entries st @
                    map (\<lambda>(j, e). LogEntry (ItemObj (pk e)) ''pretix.event.item.reordered''
                                     (user rq) [(''position'', PyInt (int j))])
                      (if up then [(nat (position nb), c), (nat (position c), nb)]
                       else [(nat (position c), nb), (nat (position nb), c)]),
                  writes := writes st @
                    map (\<lambda>(j, e). SaveRow (ItemObj (pk e)) None)
                      (if up then [(nat (position nb), c), (nat (position c), nb)]
                       else [(nat (position c), nb), (nat (position nb), c)])\<rparr>)))"
proof (intro conjI impI)
  from c have k: "pk c \<in> pk ` set (items st)" by simp
  from item_in_scope [OF d c] have cin: "c \<in> set (item_scope st (pk c))" by (rule conjunct2)
  note dS = distinct_item_scope [OF d, of "pk c"]
  {
    assume b: "at_boundary (pk c) up (item_scope st (pk c))"
    from item_move_renumbers [OF d k, of rq up] b cont
    show "item_move rq (pk c) up st = (Inr (), st)" by auto
  next
    assume nb: "\<not> at_boundary (pk c) up (item_scope st (pk c))"
    from moved_order_swap [OF d item_scope_subset dS cont cin nb]
    obtain nb where nbin: "nb \<in> set (item_scope st (pk c))"
      and pn: "position nb = (if up then position c - 1 else position c + 1)"
      and ren: "renumbered 0 (moved_order (pk c) up (item_scope st (pk c))) (items st)
           = map (\<lambda>r. if pk r = pk c then r\<lparr>position := position nb\<rparr>
                       else if pk r = pk nb then r\<lparr>position := position c\<rparr> else r) (items st)"
      and mis: "misplaced 0 (moved_order (pk c) up (item_scope st (pk c)))
           = (if up then [(nat (position nb), c), (nat (position c), nb)]
              else [(nat (position c), nb), (nat (position nb), c)])"
      by blast
    from item_move_unfold [OF d k, of rq up]
    have "item_move rq (pk c) up st = (Inr (), st\<lparr>
                  items := map (\<lambda>r. if pk r = pk c then r\<lparr>position := position nb\<rparr>
                                         else if pk r = pk nb then r\<lparr>position := position c\<rparr> else r)
                                  (items st),
                  log_entries := log_entries st @
                    map (\<lambda>(j, e). LogEntry (ItemObj (pk e)) ''pretix.event.item.reordered''
                                     (user rq) [(''position'', PyInt (int j))])
                      (if up then [(nat (position nb), c), (nat (position c), nb)]
                       else [(nat (position c), nb), (nat (position nb), c)]),
                  writes := writes st @
                    map (\<lambda>(j, e). SaveRow (ItemObj (pk e)) None)
                      (if up then [(nat (position nb), c), (nat (position c), nb)]
                       else [(nat (position c), nb), (nat (position nb), c)])\<rparr>)"
      by (simp only: ren mis)
    with nbin pn
    show "\<exists>nb\<in>set (item_scope st (pk c)). position nb = (if up then position c - 1 else position c + 1)
              \<and> item_move rq (pk c) up st = (Inr (), st\<lparr>
                  items := map (\<lambda>r. if pk r = pk c then r\<lparr>position := position nb\<rparr>
                                         else if pk r = pk nb then r\<lparr>position := position c\<rparr> else r)
                                  (items st),
                  log_entries := log_entries st @
                    map (\<lambda>(j, e). LogEntry (ItemObj (pk e)) ''pretix.event.item.reordered''
                                     (user rq) [(''position'', PyInt (int j))])
                      (if up then [(nat (position nb), c), (nat (position c), nb)]
                       else [(nat (position c), nb), (nat (position nb), c)]),
                  writes := writes st @
                    map (\<lambda>(j, e). SaveRow (ItemObj (pk e)) None)
                      (if up then [(nat (position nb), c), (nat (position c), nb)]
                       else [(nat (position c), nb), (nat (position nb), c)])\<rparr>)"
      by blast
  }
qed

text \<open>
  C7, as stated, fails in a scope that has a gap: with the categories 1 and 2 at the
  positions 1 and 2, moving the first category up exchanges nothing, yet both
  categories are renumbered, saved and logged.
\<close>

theorem boundary_move_counterexample:
  "at_boundary 1 True (categories gap_categories)
 \<and> category_move form_post 1 True gap_categories = (Inr (), gap_categories\<lparr>
      categories := [\<lparr>pk = 1, position = 0\<rparr>, \<lparr>pk = 2, position = 1\<rparr>],
      log_entries :=
        [LogEntry (CategoryObj 1) ''pretix.event.category.reordered'' 7 [(''position'', PyInt 0)],
         LogEntry (CategoryObj 2) ''pretix.event.category.reordered'' 7 [(''position'', PyInt 1)]],
      writes := [SaveRow (CategoryObj 1) None, SaveRow (CategoryObj 2) None]\<rparr>)
 \<and> snd (category_move form_post 1 True gap_categories) \<noteq> gap_categories"
  by code_simp

text \<open>
  C7, amended. In a scope whose positions are 0, ..., n-1, moving the first entity up
  or the last entity down returns the state unchanged, audit log included; any other
  move exchanges the positions of the entity and of its neighbour (the row one
  position before it when moving up, one after it when moving down), saves and logs
  these two rows, in list order, and changes nothing else.
\<close>

theorem move_in_contiguous_scope:
  "(distinct (map pk (categories st1)) \<and> contiguous (categories st1) \<and> c1 \<in> set (categories st1)
    \<longrightarrow>
     (at_boundary (pk c1) up1 (categories st1) \<longrightarrow> category_move rq1 (pk c1) up1 st1 = (Inr (), st1))
   \<and> (\<not> at_boundary (pk c1) up1 (categories st1) \<longrightarrow>
        (\<exists>nb\<in>set (categories st1). position nb = (if up1 then position c1 - 1 else position c1 + 1)
          \<and> category_move rq1 (pk c1) up1 st1 = (Inr (), st1\<lparr>
              categories := map (\<lambda>r. if pk r = pk c1 then r\<lparr>position := position nb\<rparr>
                                     else if pk r = pk nb then r\<lparr>position := position c1\<rparr> else r)
                              (categories st1),
              log_entries := log_entries st1 @
                map (\<lambda>(j, e). LogEntry (CategoryObj (pk e)) ''pretix.event.category.reordered''
                                 (user rq1) [(''position'', PyInt (int j))])
                  (if up1 then [(nat (position nb), c1), (nat (position c1), nb)]
                   else [(nat (position c1), nb), (nat (position nb), c1)]),
              writes := writes st1 @
                map (\<lambda>(j, e). SaveRow (CategoryObj (pk e)) None)
                  (if up1 then [(nat (position nb), c1), (nat (position c1), nb)]
                   else [(nat (position c1), nb), (nat (position nb), c1)])\<rparr>))))
 \<and> (distinct (map pk (items st2)) \<and> contiguous (item_scope st2 (pk c2)) \<and> c2 \<in> set (items st2)
    \<longrightarrow>
     (at_boundary (pk c2) up2 (item_scope st2 (pk c2)) \<longrightarrow> item_move rq2 (pk c2) up2 st2 = (Inr (), st2))
   \<and> (\<not> at_boundary (pk c2) up2 (item_scope st2 (pk c2)) \<longrightarrow>
        (\<exists>nb\<in>set (item_scope st2 (pk c2)).
            position nb = (if up2 then position c2 - 1 else position c2 + 1)
          \<and> item_move rq2 (pk c2) up2 st2 = (Inr (), st2\<lparr>
              items := map (\<lambda>r. if pk r = pk c2 then r\<lparr>position := position nb\<rparr>
                                else if pk r = pk nb then r\<lparr>position := position c2\<rparr> else r)
                         (items st2),
              log_entries := log_entries st2 @
                map (\<lambda>(j, e). LogEntry (ItemObj (pk e)) ''pretix.event.item.reordered''
                                 (user rq2) [(''position'', PyInt (int j))])
                  (if up2 then [(nat (position nb), c2), (nat (position c2), nb)]
                   else [(nat (position c2), nb), (nat (position nb), c2)]),
              writes := writes st2 @
                map (\<lambda>(j, e). SaveRow (ItemObj (pk e)) None)
                  (if up2 then [(nat (position nb), c2), (nat (position c2), nb)]
                   else [(nat (position c2), nb), (nat (position nb), c2)])\<rparr>))))"
  using category_move_contiguous [of st1 c1 up1 rq1] item_move_contiguous [of st2 c2 up2 rq2]
  by (intro conjI impI) (elim conjE, simp)+

theorem move_in_contiguous_scope_witness:
  "distinct (map pk (categories three_categories)) \<and> contiguous (categories three_categories)
 \<and> \<lparr>pk = 1, position = 0\<rparr> \<in> set (categories three_categories)
 \<and> at_boundary (pk \<lparr>pk = 1, position = 0\<rparr>) True (categories three_categories)
 \<and> category_move form_post (pk \<lparr>pk = 1, position = 0\<rparr>) True three_categories
     = (Inr (), three_categories)
 \<and> distinct (map pk (items three_items))
 \<and> contiguous (item_scope three_items (pk \<lparr>pk = 2, position = 1, category = None\<rparr>))
 \<and> \<lparr>pk = 2, position = 1, category = None\<rparr> \<in> set (items three_items)
 \<and> at_boundary (pk \<lparr>pk = 2, position = 1, category = None\<rparr>) False
      (item_scope three_items (pk \<lparr>pk = 2, position = 1, category = None\<rparr>))
 \<and> item_move form_post (pk \<lparr>pk = 2, position = 1, category = None\<rparr>) False three_items
     = (Inr (), three_items)
 \<and> \<lparr>pk = 2, position = 1\<rparr> \<in> set (categories three_categories)
 \<and> \<not> at_boundary (pk \<lparr>pk = 2, position = 1\<rparr>) True (categories three_categories)
 \<and> (\<exists>nb\<in>set (categories three_categories). position nb = position \<lparr>pk = 2, position = 1\<rparr> - 1
      \<and> categories (snd (category_move form_post (pk \<lparr>pk = 2, position = 1\<rparr>) True three_categories))
          = map (\<lambda>r. if pk r = pk \<lparr>pk = 2, position = 1\<rparr> then r\<lparr>position := position nb\<rparr>
                     else if pk r = pk nb then r\<lparr>position := position \<lparr>pk = 2, position = 1\<rparr>\<rparr> else r)
              (categories three_categories))"
proof -
  have h: "distinct (map pk (categories three_categories))" "contiguous (categories three_categories)"
    "\<lparr>pk = 1, position = 0\<rparr> \<in> set (categories three_categories)"
    "at_boundary (pk \<lparr>pk = 1, position = 0\<rparr>) True (categories three_categories)"
    "distinct (map pk (items three_items))"
    "contiguous (item_scope three_items (pk \<lparr>pk = 2, position = 1, category = None\<rparr>))"
    "\<lparr>pk = 2, position = 1, category = None\<rparr> \<in> set (items three_items)"
    "at_boundary (pk \<lparr>pk = 2, position = 1, category = None\<rparr>) False
      (item_scope three_items (pk \<lparr>pk = 2, position = 1, category = None\<rparr>))"
    "\<lparr>pk = 2, position = 1\<rparr> \<in> set (categories three_categories)"
    "\<not> at_boundary (pk \<lparr>pk = 2, position = 1\<rparr>) True (categories three_categories)"
    by code_simp+
  from move_in_contiguous_scope [of three_categories "\<lparr>pk = 1, position = 0\<rparr>" True form_post
      three_items "\<lparr>pk = 2, position = 1, category = None\<rparr>" False form_post] h
  have a: "category_move form_post (pk \<lparr>pk = 1, position = 0\<rparr>) True three_categories
     = (Inr (), three_categories)"
    and b: "item_move form_post (pk \<lparr>pk = 2, position = 1, category = None\<rparr>) False three_items
     = (Inr (), three_items)"
    by blast+
  from move_in_contiguous_scope [of three_categories "\<lparr>pk = 2, position = 1\<rparr>" True form_post
      three_items "\<lparr>pk = 2, position = 1, category = None\<rparr>" False form_post] h
  obtain nb where "nb \<in> set (categories three_categories)"
    "position nb = (if True then position \<lparr>pk = 2, position = 1\<rparr> - 1
                    else position \<lparr>pk = 2, position = 1\<rparr> + 1)"
    "category_move form_post (pk \<lparr>pk = 2, position = 1\<rparr>) True three_categories
       = (Inr (), three_categories\<lparr>
              categories := map (\<lambda>r. if pk r = pk \<lparr>pk = 2, position = 1\<rparr> then r\<lparr>position := position nb\<rparr>
                                     else if pk r = pk nb then r\<lparr>position := position \<lparr>pk = 2, position = 1\<rparr>\<rparr> else r)
                              (categories three_categories),
              log_entries := log_entries three_categories @
                map (\<lambda>(j, e). LogEntry (CategoryObj (pk e)) ''pretix.event.category.reordered''
                                 (user form_post) [(''position'', PyInt (int j))])
                  (if True then [(nat (position nb), \<lparr>pk = 2, position = 1\<rparr>), (nat (position \<lparr>pk = 2, position = 1\<rparr>), nb)]
                   else [(nat (position \<lparr>pk = 2, position = 1\<rparr>), nb), (nat (position nb), \<lparr>pk = 2, position = 1\<rparr>)]),
              writes := writes three_categories @
                map (\<lambda>(j, e). SaveRow (CategoryObj (pk e)) None)
                  (if True then [(nat (position nb), \<lparr>pk = 2, position = 1\<rparr>), (nat (position \<lparr>pk = 2, position = 1\<rparr>), nb)]
                   else [(nat (position \<lparr>pk = 2, position = 1\<rparr>), nb), (nat (position nb), \<lparr>pk = 2, position = 1\<rparr>)])\<rparr>)"
    by blast
  then have c: "\<exists>nb\<in>set (categories three_categories). position nb = position \<lparr>pk = 2, position = 1\<rparr> - 1
      \<and> categories (snd (category_move form_post (pk \<lparr>pk = 2, position = 1\<rparr>) True three_categories))
          = map (\<lambda>r. if pk r = pk \<lparr>pk = 2, position = 1\<rparr> then r\<lparr>position := position nb\<rparr>
                     else if pk r = pk nb then r\<lparr>position := position \<lparr>pk = 2, position = 1\<rparr>\<rparr> else r)
              (categories three_categories)"
    by (intro bexI [of _ nb]) simp_all
  from h a b c show ?thesis by (simp only: simp_thms)
qed

end
